theory Spec2Isabelle
  imports Complex_Main
begin

section \<open>Python values used by the simulator\<close>

text \<open>
  The simulator is one Python file. Node objects are compared and hashed by identity, so a
  node is modelled by its identity, a natural number. Numbers that the program computes
  with true division or with the literals \<open>0.5\<close>, \<open>0.03\<close>, ... are modelled as
  reals; counters and latencies are Python ints.
\<close>

datatype py_error = ZeroDivisionError | OverflowError

text \<open>
  \<open>float('infinity')\<close> next to ints: the values of the \<open>distances\<close> dictionary of the
  router and of \<open>routing_stats['min_hops']\<close>.
\<close>

datatype dist = Finite int | Infinity

text \<open>Python's \<open>a < b\<close> on such values.\<close>

fun dist_lt :: "dist \<Rightarrow> dist \<Rightarrow> bool" where
  "dist_lt (Finite a) (Finite b) = (a < b)"
| "dist_lt (Finite a) Infinity = True"
| "dist_lt Infinity b = False"

text \<open>Python's \<open>d + n\<close> for an int \<open>n\<close>.\<close>

fun dist_add :: "dist \<Rightarrow> int \<Rightarrow> dist" where
  "dist_add (Finite a) n = Finite (a + n)"
| "dist_add Infinity n = Infinity"

text \<open>Python's \<open>int(x)\<close> on a float: truncation towards zero.\<close>

definition py_int :: "real \<Rightarrow> int" where
  "py_int x = (if 0 \<le> x then \<lfloor>x\<rfloor> else \<lceil>x\<rceil>)"

section \<open>TCP congestion control\<close>

datatype tcp_state = slow_start | congestion_avoidance | fast_recovery

datatype tcp_algorithm = Tahoe | Reno

record tcp =
  cwnd :: real
  ssthresh :: real
  state :: tcp_state
  duplicate_acks :: int
  packets_sent :: int
  packets_acked :: int
  algorithm :: tcp_algorithm

text \<open>\<open>TCPCongestionControl.__init__\<close>, followed by the subclass setting \<open>algorithm\<close>.\<close>

definition tcp_init :: "tcp_algorithm \<Rightarrow> tcp" where
  "tcp_init a = \<lparr>cwnd = 1, ssthresh = 64, state = slow_start, duplicate_acks = 0,
     packets_sent = 0, packets_acked = 0, algorithm = a\<rparr>"

definition get_window_size :: "tcp \<Rightarrow> int" where
  "get_window_size c = max 1 (py_int (cwnd c))"

subsection \<open>Tahoe\<close>

definition tahoe_on_ack_received :: "tcp \<Rightarrow> py_error + tcp" where
  "tahoe_on_ack_received c =
     (let c1 = c\<lparr>packets_acked := packets_acked c + 1\<rparr>;
          c2 = c1\<lparr>duplicate_acks := 0\<rparr>
      in if state c2 = slow_start then
           (let c3 = c2\<lparr>cwnd := cwnd c2 + 1\<rparr>
            in if cwnd c3 \<ge> ssthresh c3 then Inr (c3\<lparr>state := congestion_avoidance\<rparr>)
               else Inr c3)
         else if state c2 = congestion_avoidance then
           (if cwnd c2 = 0 then Inl ZeroDivisionError
            else Inr (c2\<lparr>cwnd := cwnd c2 + 1 / cwnd c2\<rparr>))
         else Inr c2)"

definition tahoe_on_timeout :: "tcp \<Rightarrow> tcp" where
  "tahoe_on_timeout c =
     (let c1 = c\<lparr>ssthresh := max (cwnd c / 2) 2\<rparr>;
          c2 = c1\<lparr>cwnd := 1\<rparr>;
          c3 = c2\<lparr>state := slow_start\<rparr>
      in c3\<lparr>duplicate_acks := 0\<rparr>)"

definition tahoe_on_duplicate_ack :: "tcp \<Rightarrow> tcp" where
  "tahoe_on_duplicate_ack c =
     (let c1 = c\<lparr>duplicate_acks := duplicate_acks c + 1\<rparr>
      in if duplicate_acks c1 \<ge> 3 then tahoe_on_timeout c1 else c1)"

subsection \<open>Reno\<close>

definition reno_on_ack_received :: "tcp \<Rightarrow> py_error + tcp" where
  "reno_on_ack_received c =
     (let c1 = c\<lparr>packets_acked := packets_acked c + 1\<rparr>
      in if state c1 = slow_start then
           (let c2 = c1\<lparr>cwnd := cwnd c1 + 1\<rparr>;
                c3 = c2\<lparr>duplicate_acks := 0\<rparr>
            in if cwnd c3 \<ge> ssthresh c3 then Inr (c3\<lparr>state := congestion_avoidance\<rparr>)
               else Inr c3)
         else if state c1 = congestion_avoidance then
           (if cwnd c1 = 0 then Inl ZeroDivisionError
            else Inr (c1\<lparr>cwnd := cwnd c1 + 1 / cwnd c1, duplicate_acks := 0\<rparr>))
         else
           Inr (c1\<lparr>cwnd := ssthresh c1, state := congestion_avoidance, duplicate_acks := 0\<rparr>))"

definition reno_on_timeout :: "tcp \<Rightarrow> tcp" where
  "reno_on_timeout c =
     (let c1 = c\<lparr>ssthresh := max (cwnd c / 2) 2\<rparr>;
          c2 = c1\<lparr>cwnd := 1\<rparr>;
          c3 = c2\<lparr>state := slow_start\<rparr>
      in c3\<lparr>duplicate_acks := 0\<rparr>)"

definition reno_on_duplicate_ack :: "tcp \<Rightarrow> tcp" where
  "reno_on_duplicate_ack c =
     (let c1 = c\<lparr>duplicate_acks := duplicate_acks c + 1\<rparr>
      in if duplicate_acks c1 = 3 then
           (let c2 = c1\<lparr>ssthresh := max (cwnd c1 / 2) 2\<rparr>;
                c3 = c2\<lparr>cwnd := ssthresh c2 + 3\<rparr>
            in c3\<lparr>state := fast_recovery\<rparr>)
         else if state c1 = fast_recovery then c1\<lparr>cwnd := cwnd c1 + 1\<rparr>
         else c1)"

subsection \<open>Method dispatch on the object's class\<close>

definition on_ack_received :: "tcp \<Rightarrow> py_error + tcp" where
  "on_ack_received c =
     (case algorithm c of Tahoe \<Rightarrow> tahoe_on_ack_received c | Reno \<Rightarrow> reno_on_ack_received c)"

definition on_timeout :: "tcp \<Rightarrow> tcp" where
  "on_timeout c =
     (case algorithm c of Tahoe \<Rightarrow> tahoe_on_timeout c | Reno \<Rightarrow> reno_on_timeout c)"

definition on_duplicate_ack :: "tcp \<Rightarrow> tcp" where
  "on_duplicate_ack c =
     (case algorithm c of Tahoe \<Rightarrow> tahoe_on_duplicate_ack c | Reno \<Rightarrow> reno_on_duplicate_ack c)"

text \<open>The three events a controller receives, and a run of the controller over a sequence
  of them; an exception ends the run.\<close>

datatype tcp_event = AckReceived | DuplicateAck | Timeout

fun tcp_step :: "tcp \<Rightarrow> tcp_event \<Rightarrow> py_error + tcp" where
  "tcp_step c AckReceived = on_ack_received c"
| "tcp_step c DuplicateAck = Inr (on_duplicate_ack c)"
| "tcp_step c Timeout = Inr (on_timeout c)"

fun tcp_run :: "tcp \<Rightarrow> tcp_event list \<Rightarrow> py_error + tcp" where
  "tcp_run c [] = Inr c"
| "tcp_run c (e # es) = (case tcp_step c e of Inl err \<Rightarrow> Inl err | Inr c' \<Rightarrow> tcp_run c' es)"

section \<open>The simulator state\<close>

text \<open>
  Attributes of \<open>NetworkNode\<close> objects are kept field by field, as functions from the
  node's identity; \<open>self.nodes\<close> lists the identities of the nodes of the topology.
  Attributes that only the drawing code reads (position, type, name, colour) are left out.
\<close>

datatype load = light | medium | heavy

record packet =
  pkt_source :: nat
  pkt_destination :: nat
  pkt_path :: "nat list"
  pkt_current_index :: int
  pkt_progress :: real
  pkt_hop_count :: int
  pkt_total_latency :: dist
  pkt_timestamp :: real
  pkt_completed :: bool
  pkt_cwnd :: int
  pkt_algorithm :: tcp_algorithm

record path_entry =
  hops :: int
  entry_latency :: dist
  entry_time :: real

record routing =
  total_packets :: int
  avg_hop_count :: real
  min_hops :: dist
  max_hops :: int
  path_history :: "path_entry list"

record simulator =
  nodes :: "nat list"
  latency :: "nat \<Rightarrow> int"
  connections :: "nat \<Rightarrow> nat list"
  congestion :: "nat \<Rightarrow> real"
  tcp_control :: "nat \<Rightarrow> tcp option"
  packet_loss_probability :: "nat \<Rightarrow> real"
  last_ack_time :: "nat \<Rightarrow> real"
  timeout_threshold :: "nat \<Rightarrow> real"
  packets_in_flight :: "nat \<Rightarrow> int"
  sim_connections :: "(nat \<times> nat) list"
  packets :: "packet list"
  selected_node :: "nat option"
  dragging_node :: "nat option"
  connection_mode :: bool
  simulation_running :: bool
  latency_history :: "dist list"
  throughput_history :: "real list"
  time_stamps :: "real list"
  performance_start_time :: real
  traffic_load :: load
  routing_stats :: routing
  scheduled_acks :: "(int \<times> nat \<times> nat list) list"

section \<open>The router\<close>

subsection \<open>Breadth-first search: \<open>find_path\<close>\<close>

text \<open>
  The queue holds pairs of a node and the path that led to it; \<open>queue.pop(0)\<close> takes
  the head of the queue and leaves its tail. Nothing in the loop itself
  bounds the number of iterations, so the loop is a partial function: \<open>None\<close> stands for
  a search that never returns, \<open>Some None\<close> for the Python result \<open>None\<close>.
\<close>

partial_function (option) find_path_loop ::
  "simulator \<Rightarrow> nat \<Rightarrow> nat set \<Rightarrow> (nat \<times> nat list) list \<Rightarrow> nat list option option" where
  "find_path_loop s destination visited queue =
     (if queue = [] then Some None
      else
        (let node = fst (hd queue); path = snd (hd queue); rest = tl queue
         in if node = destination then Some (Some path)
            else if node \<notin> visited then
              find_path_loop s destination (insert node visited)
                (rest @ map (\<lambda>neighbor. (neighbor, path @ [neighbor]))
                          (filter (\<lambda>neighbor. neighbor \<notin> insert node visited)
                             (connections s node)))
            else find_path_loop s destination visited rest))"

definition find_path :: "simulator \<Rightarrow> nat \<Rightarrow> nat \<Rightarrow> nat list option option" where
  "find_path s src destination = find_path_loop s destination {} [(src, [src])]"

subsection \<open>Dijkstra: \<open>dijkstra_shortest_path\<close>\<close>

text \<open>
  \<open>min(unvisited, key=...)\<close> returns the first element, in the iteration order of the
  set, whose key is not above any other: \<open>best\<close> is replaced only by a strictly smaller key.
\<close>

fun min_by :: "(nat \<Rightarrow> dist) \<Rightarrow> nat \<Rightarrow> nat list \<Rightarrow> nat" where
  "min_by key best [] = best"
| "min_by key best (x # xs) = (if dist_lt (key x) (key best) then min_by key x xs else min_by key best xs)"

text \<open>The body of \<open>for neighbor in current.connections\<close>.\<close>

definition relax ::
  "simulator \<Rightarrow> nat \<Rightarrow> nat list \<Rightarrow> nat \<Rightarrow> (nat \<Rightarrow> dist) \<times> (nat \<Rightarrow> nat option)
     \<Rightarrow> (nat \<Rightarrow> dist) \<times> (nat \<Rightarrow> nat option)" where
  "relax s current unvisited neighbor dp =
     (case dp of (distances, previous) \<Rightarrow>
        if neighbor \<in> set unvisited then
          (let alt_distance = dist_add (distances current) (latency s current)
           in if dist_lt alt_distance (distances neighbor)
              then (distances(neighbor := alt_distance), previous(neighbor := Some current))
              else (distances, previous))
        else (distances, previous))"

lemma min_by_in_set: "min_by key best xs \<in> set (best # xs)"
  by (induction xs arbitrary: best) auto

text \<open>
  The main loop. The set \<open>unvisited\<close> is the list of its elements in iteration order,
  and \<open>unvisited.remove(current)\<close> takes the element out of it wherever it stands; the
  dictionaries \<open>distances\<close> and \<open>previous\<close> are read only at elements of \<open>unvisited\<close>
  and at nodes that were in it, all keys of both dictionaries, so they are functions and
  no lookup fails. The loop returns the two dictionaries when it reaches the destination
  and \<open>None\<close> when it falls through to \<open>return None, float('infinity')\<close>.
\<close>

function dijkstra_loop ::
  "simulator \<Rightarrow> nat \<Rightarrow> (nat \<Rightarrow> dist) \<Rightarrow> (nat \<Rightarrow> nat option) \<Rightarrow> nat list
     \<Rightarrow> ((nat \<Rightarrow> dist) \<times> (nat \<Rightarrow> nat option)) option" where
  "dijkstra_loop s destination distances previous [] = None"
| "dijkstra_loop s destination distances previous (u # us) =
     (let current = min_by distances u us
      in if distances current = Infinity then None
         else if current = destination then Some (distances, previous)
         else
           (let unvisited = removeAll current (u # us);
                dp = fold (relax s current unvisited) (connections s current) (distances, previous)
            in dijkstra_loop s destination (fst dp) (snd dp) unvisited))"
  by pat_completeness auto
termination
proof (relation "measure (\<lambda>(s, destination, distances, previous, unvisited). length unvisited)")
  show "wf (measure (\<lambda>(s, destination, distances, previous, unvisited). length unvisited))"
    by simp
next
  fix s :: simulator and destination :: nat and distances :: "nat \<Rightarrow> dist"
    and previous :: "nat \<Rightarrow> nat option" and u :: nat and us :: "nat list"
    and current :: nat and unvisited :: "nat list"
    and dp :: "(nat \<Rightarrow> dist) \<times> (nat \<Rightarrow> nat option)"
  assume c: "current = min_by distances u us" and r: "unvisited = removeAll current (u # us)"
  have "current \<in> set (u # us)"
    unfolding c by (rule min_by_in_set)
  then have "length (removeAll current (u # us)) < length (u # us)"
    by (rule length_removeAll_less)
  with r show "((s, destination, fst dp, snd dp, unvisited), (s, destination, distances, previous, u # us))
      \<in> measure (\<lambda>(s, destination, distances, previous, unvisited). length unvisited)"
    by simp
qed

declare dijkstra_loop.simps [simp del]

text \<open>
  Path reconstruction: \<open>while current: path.append(current); current = previous[current]\<close>.
  A node object is always true, so the loop ends exactly at \<open>None\<close>; on a cyclic
  \<open>previous\<close> it would not end, which is the value \<open>None\<close> of the partial function.
\<close>

partial_function (option) reconstruct ::
  "(nat \<Rightarrow> nat option) \<Rightarrow> nat option \<Rightarrow> nat list \<Rightarrow> nat list option" where
  "reconstruct previous current path =
     (case current of
        None \<Rightarrow> Some path
      | Some c \<Rightarrow> reconstruct previous (previous c) (path @ [c]))"

text \<open>
  \<open>dijkstra_shortest_path(source, destination)\<close>. \<open>iteration_order\<close> lists the elements
  of \<open>set(self.nodes)\<close> in the order in which Python iterates over that set. The result is
  the pair the function returns, inside \<open>Some\<close> when it returns at all.
\<close>

definition dijkstra_shortest_path ::
  "simulator \<Rightarrow> nat list \<Rightarrow> nat \<Rightarrow> nat \<Rightarrow> (nat list option \<times> dist) option" where
  "dijkstra_shortest_path s iteration_order src destination =
     (let distances = (\<lambda>node. Infinity)(src := Finite 0);
          previous = (\<lambda>node. None)
      in case dijkstra_loop s destination distances previous iteration_order of
           None \<Rightarrow> Some (None, Infinity)
         | Some (distances', previous') \<Rightarrow>
             (case reconstruct previous' (Some destination) [] of
                None \<Rightarrow> None
              | Some path \<Rightarrow> Some (Some (rev path), distances' destination)))"

section \<open>The flow simulator\<close>

text \<open>
  What a handler reads from outside the simulator state is an argument of its model: the
  two \<open>random.choice\<close> results, the iteration order of \<open>set(self.nodes)\<close>, the stream
  of \<open>random.random()\<close> samples, and the value of each \<open>time.time()\<close> call. Re-arming
  a periodic handler with \<open>root.after\<close> is the scheduler's business and is not part of
  the state; the one-shot ACK callbacks that a send schedules are recorded in
  \<open>scheduled_acks\<close>.
\<close>

record environment =
  env_source :: nat
  env_destination :: nat
  env_order :: "nat list"
  env_random :: "nat \<Rightarrow> real"
  env_time_packet :: real
  env_time_track :: real
  env_time_entry :: real
  env_time_timeouts :: real

subsection \<open>\<open>track_performance\<close>\<close>

text \<open>
  \<open>now\<close> and \<open>now'\<close> are the two \<open>time.time()\<close> readings of the function. Every
  branch of the throughput computation appends one value to \<open>throughput_history\<close>,
  named \<open>throughput\<close> here; a conditional assignment to a field is the field set to a
  conditional value. The division by \<open>total_packets\<close> raises when the counter, just
  incremented, is zero.
\<close>

definition track_performance ::
  "simulator \<Rightarrow> dist \<Rightarrow> int \<Rightarrow> real \<Rightarrow> real \<Rightarrow> py_error + simulator" where
  "track_performance s lat path_length now now' =
     (let current_time = now - performance_start_time s;
          s1 = s\<lparr>time_stamps := time_stamps s @ [current_time]\<rparr>;
          s2 = s1\<lparr>latency_history := latency_history s1 @ [lat]\<rparr>;
          throughput =
            (if length (time_stamps s2) > 1 then
               (let time_diff = last (time_stamps s2) - last (butlast (time_stamps s2))
                in if time_diff > 0 then (1500 * 8) / (time_diff * 1000000)
                   else if throughput_history s2 \<noteq> [] then last (throughput_history s2) else 0)
             else 0);
          s3 = s2\<lparr>throughput_history := throughput_history s2 @ [throughput]\<rparr>;
          r1 = (routing_stats s3)\<lparr>total_packets := total_packets (routing_stats s3) + 1\<rparr>;
          hop_count = path_length - 1;
          r2 = r1\<lparr>min_hops := (if dist_lt (Finite hop_count) (min_hops r1) then Finite hop_count
                                  else min_hops r1)\<rparr>;
          r3 = r2\<lparr>max_hops := (if hop_count > max_hops r2 then hop_count else max_hops r2)\<rparr>;
          total_hops = avg_hop_count r3 * real_of_int (total_packets r3 - 1) + real_of_int hop_count
      in if total_packets r3 = 0 then Inl ZeroDivisionError
         else
           (let r4 = r3\<lparr>avg_hop_count := total_hops / real_of_int (total_packets r3)\<rparr>;
                r5 = r4\<lparr>path_history := path_history r4 @
                       [\<lparr>hops = hop_count, entry_latency = lat,
                         entry_time = now' - performance_start_time s3\<rparr>]\<rparr>;
                r6 = r5\<lparr>path_history := (if length (path_history r5) > 100 then tl (path_history r5)
                                           else path_history r5)\<rparr>;
                s4 = s3\<lparr>routing_stats := r6\<rparr>
            in if length (time_stamps s4) > 50 then
                 Inr (s4\<lparr>time_stamps := tl (time_stamps s4),
                          latency_history := tl (latency_history s4),
                          throughput_history := tl (throughput_history s4)\<rparr>)
               else Inr s4))"

subsection \<open>\<open>check_timeouts\<close>, \<open>handle_packet_ack\<close> and \<open>decay_congestion\<close>\<close>

definition timeout_node :: "real \<Rightarrow> nat \<Rightarrow> simulator \<Rightarrow> simulator" where
  "timeout_node current_time node s =
     (case tcp_control s node of
        None \<Rightarrow> s
      | Some c \<Rightarrow>
          if packets_in_flight s node > 0 then
            (if current_time - last_ack_time s node > timeout_threshold s node then
               s\<lparr>tcp_control := (tcp_control s)(node := Some (on_timeout c)),
                  packets_in_flight := (packets_in_flight s)(node := 0),
                  last_ack_time := (last_ack_time s)(node := current_time),
                  congestion := (congestion s)(node := min 10 (congestion s node + 2))\<rparr>
             else s)
          else s)"

definition check_timeouts :: "simulator \<Rightarrow> real \<Rightarrow> simulator" where
  "check_timeouts s current_time = fold (timeout_node current_time) (nodes s) s"

text \<open>The loop body \<open>node.congestion = max(0, node.congestion - amount)\<close>.\<close>

definition lower_congestion :: "real \<Rightarrow> nat \<Rightarrow> simulator \<Rightarrow> simulator" where
  "lower_congestion amount node s =
     s\<lparr>congestion := (congestion s)(node := max 0 (congestion s node - amount))\<rparr>"

text \<open>The loop body \<open>node.congestion = min(10, node.congestion + amount)\<close>.\<close>

definition raise_congestion :: "real \<Rightarrow> nat \<Rightarrow> simulator \<Rightarrow> simulator" where
  "raise_congestion amount node s =
     s\<lparr>congestion := (congestion s)(node := min 10 (congestion s node + amount))\<rparr>"

definition handle_packet_ack :: "simulator \<Rightarrow> nat \<Rightarrow> nat list \<Rightarrow> real \<Rightarrow> py_error + simulator" where
  "handle_packet_ack s src path now =
     (case tcp_control s src of
        None \<Rightarrow> Inr s
      | Some c \<Rightarrow>
          (case on_ack_received c of
             Inl err \<Rightarrow> Inl err
           | Inr c' \<Rightarrow>
               (let s1 = s\<lparr>tcp_control := (tcp_control s)(src := Some c')\<rparr>;
                    s2 = s1\<lparr>packets_in_flight :=
                            (packets_in_flight s1)(src := max 0 (packets_in_flight s1 src - 1))\<rparr>;
                    s3 = s2\<lparr>last_ack_time := (last_ack_time s2)(src := now)\<rparr>
                in Inr (fold (lower_congestion 0.2) path s3))))"

definition decay_node :: "nat \<Rightarrow> simulator \<Rightarrow> simulator" where
  "decay_node node s =
     (if congestion s node > 0 then
        (let decay_rate = (if traffic_load s = heavy then 0.1 else 0.2)
         in lower_congestion decay_rate node s)
      else s)"

definition decay_congestion :: "simulator \<Rightarrow> simulator" where
  "decay_congestion s = (if simulation_running s then fold decay_node (nodes s) s else s)"

subsection \<open>\<open>start_packet_generation\<close>\<close>

text \<open>The loss-sampling loop; it returns the state and the flag \<open>packet_loss\<close>.\<close>

fun sample_loss :: "simulator \<Rightarrow> (nat \<Rightarrow> real) \<Rightarrow> nat \<Rightarrow> nat list \<Rightarrow> simulator \<times> bool" where
  "sample_loss s rnd i [] = (s, False)"
| "sample_loss s rnd i (node # rest) =
     (let s1 = s\<lparr>packet_loss_probability :=
                  (packet_loss_probability s)(node := min 0.3 (congestion s node * 0.03))\<rparr>
      in if rnd i < packet_loss_probability s1 node then (s1, True)
         else sample_loss s1 rnd (Suc i) rest)"

text \<open>The branch \<open>if packet_loss:\<close>, for the source's controller \<open>c\<close>.\<close>

definition packet_lost :: "simulator \<Rightarrow> nat \<Rightarrow> tcp \<Rightarrow> nat list \<Rightarrow> simulator" where
  "packet_lost s src c path =
     (let c' = on_duplicate_ack c;
          s1 = s\<lparr>tcp_control := (tcp_control s)(src := Some c')\<rparr>;
          congestion_factor = (if state c' = slow_start then 0.5
                               else if state c' = fast_recovery then 1.5 else 1.0)
      in fold (raise_congestion (congestion_factor * 0.5)) path s1)"

text \<open>The \<open>else\<close> branch: the packet is sent. \<open>int(total_latency)\<close> raises on infinity.\<close>

definition packet_sent ::
  "simulator \<Rightarrow> environment \<Rightarrow> nat \<Rightarrow> nat \<Rightarrow> tcp \<Rightarrow> nat list \<Rightarrow> dist \<Rightarrow> py_error + simulator" where
  "packet_sent s e src destination c path total_latency =
     (let pkt = \<lparr>pkt_source = src, pkt_destination = destination, pkt_path = path,
                 pkt_current_index = 0, pkt_progress = 0,
                 pkt_hop_count = int (length path) - 1, pkt_total_latency = total_latency,
                 pkt_timestamp = env_time_packet e, pkt_completed = False,
                 pkt_cwnd = get_window_size c, pkt_algorithm = algorithm c\<rparr>;
          s1 = s\<lparr>packets := packets s @ [pkt]\<rparr>;
          s2 = s1\<lparr>packets_in_flight := (packets_in_flight s1)(src := packets_in_flight s1 src + 1)\<rparr>;
          c' = c\<lparr>packets_sent := packets_sent c + 1\<rparr>;
          s3 = s2\<lparr>tcp_control := (tcp_control s2)(src := Some c')\<rparr>
      in case total_latency of
           Infinity \<Rightarrow> Inl OverflowError
         | Finite delay \<Rightarrow>
             (let s4 = s3\<lparr>scheduled_acks := scheduled_acks s3 @ [(delay, src, path)]\<rparr>;
                  congestion_factor = 1.0 / real_of_int (max 1 (get_window_size c'));
                  congestion_factor' = (if traffic_load s4 = light then congestion_factor * 0.5
                                        else if traffic_load s4 = heavy then congestion_factor * 2
                                        else congestion_factor)
              in Inr (fold (raise_congestion congestion_factor') path s4)))"

text \<open>The body of \<open>if path:\<close>: loss sampling, one of the two branches, then
  \<open>track_performance\<close>.\<close>

definition send_attempt ::
  "simulator \<Rightarrow> environment \<Rightarrow> nat \<Rightarrow> nat \<Rightarrow> tcp \<Rightarrow> nat list \<Rightarrow> dist \<Rightarrow> py_error + simulator" where
  "send_attempt s e src destination c path total_latency =
     (let sl = sample_loss s (env_random e) 0 path
      in case (if snd sl then Inr (packet_lost (fst sl) src c path)
               else packet_sent (fst sl) e src destination c path total_latency) of
           Inl err \<Rightarrow> Inl err
         | Inr s1 \<Rightarrow>
             track_performance s1 total_latency (int (length path))
               (env_time_track e) (env_time_entry e))"

text \<open>
  The handler. The outer \<open>option\<close> is \<open>None\<close> when the router does not return; an
  exception is \<open>Inl\<close>.
\<close>

definition start_packet_generation :: "simulator \<Rightarrow> environment \<Rightarrow> (py_error + simulator) option" where
  "start_packet_generation s e =
     (if simulation_running s \<and> length (nodes s) > 1 then
        (let src = env_source e; destination = env_destination e;
             attempt =
               (case tcp_control s src of
                  None \<Rightarrow> Some (Inr s)
                | Some c \<Rightarrow>
                    if packets_in_flight s src < get_window_size c then
                      (case dijkstra_shortest_path s (env_order e) src destination of
                         None \<Rightarrow> None
                       | Some (None, total_latency) \<Rightarrow> Some (Inr s)
                       | Some (Some path, total_latency) \<Rightarrow>
                           if path \<noteq> [] then Some (send_attempt s e src destination c path total_latency)
                           else Some (Inr s))
                    else Some (Inr s))
         in case attempt of
              None \<Rightarrow> None
            | Some (Inl err) \<Rightarrow> Some (Inl err)
            | Some (Inr s1) \<Rightarrow> Some (Inr (check_timeouts s1 (env_time_timeouts e))))
      else Some (Inr s))"

subsection \<open>The events of the engine\<close>

text \<open>The three scheduled handlers, with what each reads from outside, and a run of the
  engine over a sequence of them.\<close>

datatype event =
    Generate environment
  | Ack nat "nat list" real
  | Decay

fun engine_step :: "simulator \<Rightarrow> event \<Rightarrow> (py_error + simulator) option" where
  "engine_step s (Generate e) = start_packet_generation s e"
| "engine_step s (Ack src path now) = Some (handle_packet_ack s src path now)"
| "engine_step s Decay = Some (Inr (decay_congestion s))"

fun engine_run :: "simulator \<Rightarrow> event list \<Rightarrow> (py_error + simulator) option" where
  "engine_run s [] = Some (Inr s)"
| "engine_run s (ev # evs) =
     (case engine_step s ev of
        None \<Rightarrow> None
      | Some (Inl err) \<Rightarrow> Some (Inl err)
      | Some (Inr s') \<Rightarrow> engine_run s' evs)"

section \<open>Building the topology by hand\<close>

text \<open>
  \<open>on_canvas_click\<close>; \<open>clicked_node\<close> is the result of \<open>get_node_at\<close> for the
  click. In connection mode the first click selects a node and the second one links it to
  the selected node.
\<close>

definition on_canvas_click :: "simulator \<Rightarrow> nat option \<Rightarrow> simulator" where
  "on_canvas_click s clicked_node =
     (case clicked_node of
        None \<Rightarrow> s
      | Some clicked \<Rightarrow>
          if connection_mode s then
            (case selected_node s of
               None \<Rightarrow> s\<lparr>selected_node := Some clicked\<rparr>
             | Some selected \<Rightarrow>
                 if selected \<noteq> clicked then
                   (let s1 = (if clicked \<notin> set (connections s selected) then
                                (let s2 = s\<lparr>connections := (connections s)
                                            (selected := connections s selected @ [clicked])\<rparr>;
                                     s3 = s2\<lparr>connections := (connections s2)
                                            (clicked := connections s2 clicked @ [selected])\<rparr>
                                 in s3\<lparr>sim_connections := sim_connections s3 @ [(selected, clicked)]\<rparr>)
                              else s)
                    in s1\<lparr>selected_node := None\<rparr>)
                 else s)
          else s\<lparr>dragging_node := Some clicked\<rparr>)"

text \<open>One connect action: two clicks, on \<open>a\<close> and then on \<open>b\<close>.\<close>

definition connect :: "simulator \<Rightarrow> nat \<Rightarrow> nat \<Rightarrow> simulator" where
  "connect s a b = on_canvas_click (on_canvas_click s (Some a)) (Some b)"

section \<open>Vocabulary of the properties\<close>

subsection \<open>Paths of the topology\<close>

definition linked :: "simulator \<Rightarrow> nat \<Rightarrow> nat \<Rightarrow> bool" where
  "linked s x y = (y \<in> set (connections s x))"

fun valid_path :: "simulator \<Rightarrow> nat list \<Rightarrow> bool" where
  "valid_path s [] = False"
| "valid_path s [x] = True"
| "valid_path s (x # y # zs) = (linked s x y \<and> valid_path s (y # zs))"

definition path_from_to :: "simulator \<Rightarrow> nat \<Rightarrow> nat \<Rightarrow> nat list \<Rightarrow> bool" where
  "path_from_to s a b q = (valid_path s q \<and> hd q = a \<and> last q = b)"

text \<open>The cost of a path: the latency of every node that is left, so of all but the last.\<close>

definition path_cost :: "simulator \<Rightarrow> nat list \<Rightarrow> int" where
  "path_cost s q = sum_list (map (latency s) (butlast q))"

definition reachable :: "simulator \<Rightarrow> nat \<Rightarrow> nat \<Rightarrow> bool" where
  "reachable s a b = ((a, b) \<in> {(x, y). linked s x y}\<^sup>*)"

text \<open>
  What every topology built by the simulator satisfies: links join nodes of the topology,
  every link is entered in the adjacency lists of both of its ends, and latencies, drawn
  from 5..50, are not negative.
\<close>

definition wf_topology :: "simulator \<Rightarrow> bool" where
  "wf_topology s =
     (\<forall>n \<in> set (nodes s).
        0 \<le> latency s n \<and>
        (\<forall>m \<in> set (connections s n). m \<in> set (nodes s) \<and> n \<in> set (connections s m)))"

text \<open>Two nodes of the topology are in the same connected component when a chain of
  links between nodes of the topology, each taken in either direction, joins them.\<close>

definition same_component :: "simulator \<Rightarrow> nat \<Rightarrow> nat \<Rightarrow> bool" where
  "same_component s a b =
     ((a, b) \<in> {(x, y). x \<in> set (nodes s) \<and> y \<in> set (nodes s) \<and> (linked s x y \<or> linked s y x)}\<^sup>*)"

subsection \<open>Invariants of the two searches\<close>

text \<open>
  \<open>rchain previous ys\<close>: the list \<open>ys\<close> is what path reconstruction collects from
  \<open>hd ys\<close>, each element followed by its \<open>previous\<close> entry, the last one having none.
\<close>

fun rchain :: "(nat \<Rightarrow> nat option) \<Rightarrow> nat list \<Rightarrow> bool" where
  "rchain p [] = False"
| "rchain p [x] = (p x = None)"
| "rchain p (x # y # zs) = (p x = Some y \<and> rchain p (y # zs))"

text \<open>Every finite distance is the cost of the path that \<open>previous\<close> records for it, and
  that path runs through settled nodes \<open>S\<close>.\<close>

definition chains :: "simulator \<Rightarrow> nat \<Rightarrow> nat set \<Rightarrow> (nat \<Rightarrow> dist) \<Rightarrow> (nat \<Rightarrow> nat option) \<Rightarrow> bool" where
  "chains s src S d p =
     (\<forall>v k. d v = Finite k \<longrightarrow>
        (\<exists>ys. rchain p ys \<and> hd ys = v \<and> last ys = src \<and> set (tl ys) \<subseteq> S
              \<and> valid_path s (rev ys) \<and> path_cost s (rev ys) = k))"

text \<open>The invariant of the main loop of Dijkstra; the settled nodes are those of
  \<open>self.nodes\<close> no longer in \<open>unvisited\<close>.\<close>

definition dijkstra_inv ::
  "simulator \<Rightarrow> nat \<Rightarrow> (nat \<Rightarrow> dist) \<Rightarrow> (nat \<Rightarrow> nat option) \<Rightarrow> nat list \<Rightarrow> bool" where
  "dijkstra_inv s src d p unv =
     (src \<in> set (nodes s) \<and> set unv \<subseteq> set (nodes s) \<and> d src = Finite 0
      \<and> chains s src (set (nodes s) - set unv) d p
      \<and> (\<forall>x \<in> set (nodes s) - set unv. \<forall>y \<in> set (connections s x).
            y \<in> set unv \<longrightarrow> \<not> dist_lt (dist_add (d x) (latency s x)) (d y))
      \<and> (\<forall>x \<in> set (nodes s) - set unv.
            \<exists>k. d x = Finite k \<and> (\<forall>q. path_from_to s src x q \<longrightarrow> k \<le> path_cost s q)))"

text \<open>The invariant of the breadth-first search.\<close>

definition bfs_inv ::
  "simulator \<Rightarrow> nat \<Rightarrow> nat \<Rightarrow> nat set \<Rightarrow> (nat \<times> nat list) list \<Rightarrow> bool" where
  "bfs_inv s src dst visited queue =
     (visited \<subseteq> set (nodes s)
      \<and> (\<forall>e \<in> set queue. fst e \<in> set (nodes s) \<and> path_from_to s src (fst e) (snd e))
      \<and> (src \<in> visited \<or> src \<in> fst ` set queue)
      \<and> dst \<notin> visited
      \<and> (\<forall>x \<in> visited. \<forall>y \<in> set (connections s x). y \<in> visited \<or> y \<in> fst ` set queue))"

subsection \<open>A small topology\<close>

text \<open>Five nodes: a square 0 - 1 - 3 - 2 - 0 and the isolated node 4.\<close>

definition example_network :: simulator where
  "example_network =
     \<lparr>nodes = [0, 1, 2, 3, 4],
      latency = (\<lambda>n. if n = 0 then 10 else if n = 1 then 5 else if n = 2 then 20
                      else if n = 3 then 7 else 50),
      connections = (\<lambda>n. if n = 0 then [1, 2] else if n = 1 then [0, 3]
                          else if n = 2 then [0, 3] else if n = 3 then [1, 2] else []),
      congestion = (\<lambda>n. 0),
      tcp_control = (\<lambda>n. Some (tcp_init Reno)),
      packet_loss_probability = (\<lambda>n. 0),
      last_ack_time = (\<lambda>n. 0),
      timeout_threshold = (\<lambda>n. 2),
      packets_in_flight = (\<lambda>n. 0),
      sim_connections = [(0, 1), (0, 2), (1, 3), (2, 3)],
      packets = [],
      selected_node = None,
      dragging_node = None,
      connection_mode = False,
      simulation_running = True,
      latency_history = [],
      throughput_history = [],
      time_stamps = [],
      performance_start_time = 0,
      traffic_load = medium,
      routing_stats = \<lparr>total_packets = 0, avg_hop_count = 0, min_hops = Infinity, max_hops = 0,
        path_history = []\<rparr>,
      scheduled_acks = []\<rparr>"

text \<open>A Generate tick from node 0 to node 3 whose loss samples are all 0.\<close>

definition example_tick :: environment where
  "example_tick =
     \<lparr>env_source = 0, env_destination = 3, env_order = [3, 1, 4, 0, 2],
      env_random = (\<lambda>i. 0), env_time_packet = 1, env_time_track = 1, env_time_entry = 1,
      env_time_timeouts = 1\<rparr>"

text \<open>The same topology with every node at the top of the congestion range.\<close>

definition congested_network :: simulator where
  "congested_network = example_network\<lparr>congestion := (\<lambda>n. 10)\<rparr>"

text \<open>The same topology in connection mode, no node selected.\<close>

definition connecting_network :: simulator where
  "connecting_network = example_network\<lparr>connection_mode := True\<rparr>"

subsection \<open>Vocabulary for the flow simulator\<close>

text \<open>The range that the data model gives to \<open>congestion\<close>.\<close>

definition congestion_in_range :: "simulator \<Rightarrow> bool" where
  "congestion_in_range s = (\<forall>n. 0 \<le> congestion s n \<and> congestion s n \<le> 10)"

text \<open>
  A state in which no handler raises: the topology is well formed, every controller has
  \<open>cwnd \<ge> 1\<close> and \<open>ssthresh \<ge> 2\<close>, and the packet counter is not negative. An event is
  well formed when the nodes drawn by a Generate tick are nodes of the topology.
\<close>

definition engine_ok :: "simulator \<Rightarrow> bool" where
  "engine_ok s =
     (wf_topology s
      \<and> (\<forall>n c. tcp_control s n = Some c \<longrightarrow> 1 \<le> cwnd c \<and> 2 \<le> ssthresh c)
      \<and> 0 \<le> total_packets (routing_stats s))"

fun event_ok :: "simulator \<Rightarrow> event \<Rightarrow> bool" where
  "event_ok s (Generate e) =
     (env_source e \<in> set (nodes s) \<and> env_destination e \<in> set (nodes s)
      \<and> set (env_order e) = set (nodes s))"
| "event_ok s (Ack src path now) = True"
| "event_ok s Decay = True"

definition keeps :: "nat list \<Rightarrow> simulator \<Rightarrow> bool" where
  "keeps N s = (engine_ok s \<and> nodes s = N)"

text \<open>The performance data that \<open>track_performance\<close> reads and writes.\<close>

definition perf_data :: "simulator \<Rightarrow> routing \<times> dist list \<times> real list \<times> real list \<times> real" where
  "perf_data s = (routing_stats s, latency_history s, throughput_history s, time_stamps s,
     performance_start_time s)"

text \<open>The state of a successful send after the bookkeeping and before the congestion
  of the path is raised.\<close>

definition sent_state ::
  "simulator \<Rightarrow> environment \<Rightarrow> nat \<Rightarrow> nat \<Rightarrow> tcp \<Rightarrow> nat list \<Rightarrow> int \<Rightarrow> simulator" where
  "sent_state s e src dst c path delay =
     s\<lparr>packets := packets s @ [\<lparr>pkt_source = src, pkt_destination = dst, pkt_path = path,
                 pkt_current_index = 0, pkt_progress = 0,
                 pkt_hop_count = int (length path) - 1, pkt_total_latency = Finite delay,
                 pkt_timestamp = env_time_packet e, pkt_completed = False,
                 pkt_cwnd = get_window_size c, pkt_algorithm = algorithm c\<rparr>],
       packets_in_flight := (packets_in_flight s)(src := packets_in_flight s src + 1),
       tcp_control := (tcp_control s)(src := Some (c\<lparr>packets_sent := packets_sent c + 1\<rparr>)),
       scheduled_acks := scheduled_acks s @ [(delay, src, path)]\<rparr>"

text \<open>What one call of \<open>track_performance(lat, path_length)\<close> on \<open>s\<close> records in
  \<open>s'\<close>.\<close>

definition recorded :: "simulator \<Rightarrow> dist \<Rightarrow> int \<Rightarrow> real \<Rightarrow> simulator \<Rightarrow> bool" where
  "recorded s lat path_length now' s' =
     (total_packets (routing_stats s') = total_packets (routing_stats s) + 1
      \<and> latency_history s' =
          (if 50 < length (time_stamps s) + 1 then tl (latency_history s @ [lat])
           else latency_history s @ [lat])
      \<and> path_history (routing_stats s') =
          (if 100 < length (path_history (routing_stats s)) + 1
           then tl (path_history (routing_stats s) @
                  [\<lparr>hops = path_length - 1, entry_latency = lat,
                    entry_time = now' - performance_start_time s\<rparr>])
           else path_history (routing_stats s) @
                  [\<lparr>hops = path_length - 1, entry_latency = lat,
                    entry_time = now' - performance_start_time s\<rparr>]))"

section \<open>Properties of the congestion controllers\<close>

lemma linear_growth_ge_one: "1 \<le> (x::real) \<Longrightarrow> 1 \<le> x + 1 / x"
proof -
  assume "1 \<le> x"
  then have "0 \<le> 1 / x" by simp
  with \<open>1 \<le> x\<close> show ?thesis by linarith
qed

lemma tcp_step_invariant:
  assumes "1 \<le> cwnd c" and "2 \<le> ssthresh c"
  shows "\<exists>c'. tcp_step c e = Inr c' \<and> algorithm c' = algorithm c \<and> 1 \<le> cwnd c' \<and> 2 \<le> ssthresh c'"
proof (cases e)
  case AckReceived
  from assms show ?thesis
    unfolding AckReceived
    by (cases "algorithm c"; cases "state c")
       (auto simp: on_ack_received_def tahoe_on_ack_received_def reno_on_ack_received_def Let_def
             intro: linear_growth_ge_one)
next
  case DuplicateAck
  from assms show ?thesis
    unfolding DuplicateAck
    by (cases "algorithm c")
       (auto simp: on_duplicate_ack_def tahoe_on_duplicate_ack_def tahoe_on_timeout_def
                   reno_on_duplicate_ack_def Let_def)
next
  case Timeout
  from assms show ?thesis
    unfolding Timeout
    by (cases "algorithm c")
       (auto simp: on_timeout_def tahoe_on_timeout_def reno_on_timeout_def Let_def)
qed

lemma tcp_run_invariant:
  assumes "1 \<le> cwnd c" and "2 \<le> ssthresh c"
  shows "\<exists>c'. tcp_run c es = Inr c' \<and> algorithm c' = algorithm c \<and> 1 \<le> cwnd c' \<and> 2 \<le> ssthresh c'"
  using assms
proof (induction es arbitrary: c)
  case Nil
  then show ?case by simp
next
  case (Cons e es)
  from tcp_step_invariant[OF Cons.prems, of e] obtain c1 where
    s: "tcp_step c e = Inr c1" and a: "algorithm c1 = algorithm c"
    and i: "1 \<le> cwnd c1" "2 \<le> ssthresh c1"
    by blast
  from Cons.IH[OF i] a s show ?case by auto
qed

text \<open>
  C4. For both TCPTahoe and TCPReno, starting from the initial state
  (cwnd = 1, ssthresh = 64, state = slow_start, duplicate_acks = 0), every finite sequence
  of on_ack_received / on_duplicate_ack / on_timeout events runs without an exception and
  ends in a state with cwnd >= 1 and ssthresh >= 2.
\<close>

theorem tcp_window_invariant:
  "cwnd (tcp_init a) = 1 \<and> ssthresh (tcp_init a) = 64 \<and> state (tcp_init a) = slow_start
   \<and> duplicate_acks (tcp_init a) = 0
   \<and> (\<exists>c. tcp_run (tcp_init a) es = Inr c \<and> 1 \<le> cwnd c \<and> 2 \<le> ssthresh c)"
proof -
  have "1 \<le> cwnd (tcp_init a)" "2 \<le> ssthresh (tcp_init a)"
    by (simp_all add: tcp_init_def)
  from tcp_run_invariant[OF this, of es] show ?thesis
    by (auto simp: tcp_init_def)
qed

text \<open>
  C5. For every congestion-control state, whatever real value cwnd has (so in particular in
  every state reached from the initial one), get_window_size returns an integer that is at
  least 1 and equals floor(max(1, cwnd)).
\<close>

theorem get_window_size_floor:
  "1 \<le> get_window_size c \<and> get_window_size c = \<lfloor>max 1 (cwnd c)\<rfloor>"
proof (cases "1 \<le> cwnd c")
  case True
  then have "1 \<le> \<lfloor>cwnd c\<rfloor>" by linarith
  with True show ?thesis
    by (simp add: get_window_size_def py_int_def max_def)
next
  case False
  then have "cwnd c < 1" by simp
  then have "\<lfloor>cwnd c\<rfloor> \<le> 1" and "\<lceil>cwnd c\<rceil> \<le> 1"
    by (simp_all add: floor_le_iff ceiling_le_iff)
  then have "py_int (cwnd c) \<le> 1"
    by (simp add: py_int_def)
  with False show ?thesis
    by (simp add: get_window_size_def max_def)
qed

text \<open>
  C6. A TCPReno controller in state slow_start or congestion_avoidance with cwnd = 20,
  ssthresh = 2 and duplicate_acks = 0 is, after exactly three consecutive on_duplicate_ack
  events, in state fast_recovery with cwnd = max(20/2, 2) + 3 = 13 and ssthresh = 10.
\<close>

theorem reno_three_duplicate_acks:
  assumes "algorithm c = Reno"
    and "state c = slow_start \<or> state c = congestion_avoidance"
    and "cwnd c = 20" and "ssthresh c = 2" and "duplicate_acks c = 0"
  shows "state (on_duplicate_ack (on_duplicate_ack (on_duplicate_ack c))) = fast_recovery
    \<and> cwnd (on_duplicate_ack (on_duplicate_ack (on_duplicate_ack c))) = 13
    \<and> ssthresh (on_duplicate_ack (on_duplicate_ack (on_duplicate_ack c))) = 10
    \<and> state (on_duplicate_ack (on_duplicate_ack c)) \<noteq> fast_recovery
    \<and> state (on_duplicate_ack c) \<noteq> fast_recovery"
  using assms
  by (auto simp: on_duplicate_ack_def reno_on_duplicate_ack_def Let_def)

theorem reno_three_duplicate_acks_witness:
  "state (on_duplicate_ack (on_duplicate_ack (on_duplicate_ack
      ((tcp_init Reno)\<lparr>cwnd := 20, ssthresh := 2\<rparr>)))) = fast_recovery
   \<and> cwnd (on_duplicate_ack (on_duplicate_ack (on_duplicate_ack
      ((tcp_init Reno)\<lparr>cwnd := 20, ssthresh := 2\<rparr>)))) = 13"
  using reno_three_duplicate_acks[of "(tcp_init Reno)\<lparr>cwnd := 20, ssthresh := 2\<rparr>"]
  by (simp add: tcp_init_def)

section \<open>Properties of the router\<close>

subsection \<open>Distances and minima\<close>

lemma dist_lt_irrefl [simp]: "\<not> dist_lt a a"
  by (cases a) auto

lemma dist_lt_trans: "dist_lt a b \<Longrightarrow> dist_lt b c \<Longrightarrow> dist_lt a c"
  by (cases a; cases b; cases c) auto

lemma dist_le_trans: "\<not> dist_lt b a \<Longrightarrow> \<not> dist_lt c b \<Longrightarrow> \<not> dist_lt c a"
  by (cases a; cases b; cases c) auto

lemma dist_le_lt_trans: "\<not> dist_lt b a \<Longrightarrow> dist_lt b c \<Longrightarrow> dist_lt a c"
  by (cases a; cases b; cases c) auto

lemma dist_lt_imp_le: "dist_lt a b \<Longrightarrow> \<not> dist_lt b a"
  by (cases a; cases b) auto

lemma min_by_least: "y \<in> set (b # xs) \<Longrightarrow> \<not> dist_lt (key y) (key (min_by key b xs))"
proof (induction xs arbitrary: b y)
  case Nil
  then show ?case by simp
next
  case (Cons x xs)
  show ?case
  proof (cases "dist_lt (key x) (key b)")
    case True
    have le_x: "\<not> dist_lt (key x) (key (min_by key x xs))"
      by (rule Cons.IH) simp
    show ?thesis
    proof (cases "y = b")
      case yb: True
      from le_x True have "dist_lt (key (min_by key x xs)) (key b)"
        by (rule dist_le_lt_trans)
      then show ?thesis using True yb by (simp add: dist_lt_imp_le)
    next
      case False
      with Cons.prems have "y \<in> set (x # xs)" by auto
      from Cons.IH[OF this] True show ?thesis by simp
    qed
  next
    case False
    have le_b: "\<not> dist_lt (key b) (key (min_by key b xs))"
      by (rule Cons.IH) simp
    show ?thesis
    proof (cases "y = x")
      case True
      from le_b False have "\<not> dist_lt (key x) (key (min_by key b xs))"
        by (rule dist_le_trans)
      with True False show ?thesis by simp
    next
      case ny: False
      with Cons.prems have "y \<in> set (b # xs)" by auto
      from Cons.IH[OF this] False show ?thesis by simp
    qed
  qed
qed

lemma reconstruct_rchain:
  "rchain p ys \<Longrightarrow> reconstruct p (Some (hd ys)) acc = Some (acc @ ys)"
proof (induction p ys arbitrary: acc rule: rchain.induct)
  case (1 p)
  then show ?case by simp
next
  case (2 p x)
  then show ?case by (simp add: reconstruct.simps)
next
  case (3 p x y zs)
  from "3.prems" have px: "p x = Some y" and r: "rchain p (y # zs)" by simp_all
  have "reconstruct p (Some x) acc = reconstruct p (Some y) (acc @ [x])"
    by (subst reconstruct.simps) (simp add: px)
  also have "\<dots> = Some ((acc @ [x]) @ y # zs)"
    using "3.IH"[OF r, of "acc @ [x]"] by simp
  finally show ?case by simp
qed

lemma rchain_cong: "(\<And>x. x \<in> set ys \<Longrightarrow> p x = p' x) \<Longrightarrow> rchain p ys = rchain p' ys"
  by (induction p ys rule: rchain.induct) auto

lemma rchain_nonempty: "rchain p ys \<Longrightarrow> ys \<noteq> []"
  by auto

lemma valid_path_snoc:
  "valid_path s q \<Longrightarrow> linked s (last q) z \<Longrightarrow> valid_path s (q @ [z])"
  by (induction s q rule: valid_path.induct) auto

lemma sum_list_butlast_last:
  "q \<noteq> [] \<Longrightarrow> sum_list (map f q) = sum_list (map f (butlast q)) + (f (last q) :: int)"
  by (induction q) auto

lemma path_cost_snoc: "q \<noteq> [] \<Longrightarrow> path_cost s (q @ [z]) = path_cost s q + latency s (last q)"
  by (simp add: path_cost_def sum_list_butlast_last)

lemma valid_path_closed:
  "wf_topology s \<Longrightarrow> valid_path s q \<Longrightarrow> hd q \<in> set (nodes s) \<Longrightarrow> set q \<subseteq> set (nodes s)"
proof (induction s q rule: valid_path.induct)
  case (3 s x y zs)
  from "3.prems" have "linked s x y" and "x \<in> set (nodes s)" by simp_all
  with \<open>wf_topology s\<close> have "y \<in> set (nodes s)"
    unfolding wf_topology_def linked_def by blast
  with 3 show ?case by simp
qed auto

lemma path_cost_nonneg:
  assumes "wf_topology s" and "set q \<subseteq> set (nodes s)"
  shows "0 \<le> path_cost s q"
  unfolding path_cost_def
proof (rule sum_list_nonneg)
  fix x assume "x \<in> set (map (latency s) (butlast q))"
  then obtain n where "n \<in> set (butlast q)" and "x = latency s n" by auto
  with assms show "0 \<le> x"
    by (auto dest!: in_set_butlastD simp: wf_topology_def)
qed

lemma rchain_upd: "nb \<notin> set ys \<Longrightarrow> rchain (p(nb := v)) ys = rchain p ys"
  by (rule rchain_cong) auto

lemma relax_frame:
  "v \<notin> set unv \<Longrightarrow> fst (relax s cur unv nb dp) v = fst dp v \<and> snd (relax s cur unv nb dp) v = snd dp v"
  by (cases dp) (auto simp: relax_def Let_def)

lemma relax_mono: "\<not> dist_lt (fst dp v) (fst (relax s cur unv nb dp) v)"
  by (cases dp) (auto simp: relax_def Let_def dist_lt_imp_le)

lemma relax_bound:
  "nb \<in> set unv \<Longrightarrow> cur \<noteq> nb \<Longrightarrow>
   \<not> dist_lt (dist_add (fst dp cur) (latency s cur)) (fst (relax s cur unv nb dp) nb)"
  by (cases dp) (auto simp: relax_def Let_def)

lemma relax_chains:
  assumes ch: "chains s src S (fst dp) (snd dp)"
    and cur: "cur \<in> S" and dis: "set unv \<inter> S = {}"
    and lk: "linked s cur nb"
  shows "chains s src S (fst (relax s cur unv nb dp)) (snd (relax s cur unv nb dp))"
proof (cases dp)
  case (Pair d p)
  show ?thesis
  proof (cases "nb \<in> set unv \<and> dist_lt (dist_add (d cur) (latency s cur)) (d nb)")
    case False
    then have "relax s cur unv nb dp = dp"
      by (auto simp: relax_def Let_def Pair)
    with ch show ?thesis by simp
  next
    case True
    then obtain kc where kc: "d cur = Finite kc"
      by (cases "d cur") auto
    from True have r: "relax s cur unv nb dp
        = (d(nb := Finite (kc + latency s cur)), p(nb := Some cur))"
      by (simp add: relax_def Let_def Pair kc)
    from True dis have nbS: "nb \<notin> S" by auto
    from ch kc obtain yc where yc: "rchain p yc" "hd yc = cur" "last yc = src"
        "set (tl yc) \<subseteq> S" "valid_path s (rev yc)" "path_cost s (rev yc) = kc"
      unfolding chains_def Pair by fastforce
    from yc(1) have ne: "yc \<noteq> []" by auto
    then have yc_eq: "yc = cur # tl yc" using yc(2) by (cases yc) auto
    with yc(4) cur have sub: "set yc \<subseteq> S"
      by (metis insert_subset list.simps(15))
    with nbS have nb_notin: "nb \<notin> set yc" by auto
    show ?thesis
      unfolding chains_def r fst_conv snd_conv
    proof (intro allI impI)
      fix v k
      assume dv: "(d(nb := Finite (kc + latency s cur))) v = Finite k"
      show "\<exists>ys. rchain (p(nb \<mapsto> cur)) ys \<and> hd ys = v \<and> last ys = src \<and> set (tl ys) \<subseteq> S
              \<and> valid_path s (rev ys) \<and> path_cost s (rev ys) = k"
      proof (cases "v = nb")
        case True
        with dv have k: "k = kc + latency s cur" by simp
        have rc: "rchain (p(nb \<mapsto> cur)) yc"
          using nb_notin yc(1) by (simp add: rchain_upd)
        have 1: "rchain (p(nb \<mapsto> cur)) (nb # yc)"
          using rc yc_eq by (metis fun_upd_same rchain.simps(3))
        have lastrev: "last (rev yc) = cur" using ne yc(2) by (simp add: last_rev)
        have 2: "valid_path s (rev (nb # yc))"
          using valid_path_snoc[OF yc(5), of nb] lk lastrev by simp
        have 3: "path_cost s (rev (nb # yc)) = k"
          using path_cost_snoc[of "rev yc" s nb] ne lastrev yc(6) k by simp
        from 1 2 3 sub ne yc(3) True show ?thesis
          by (intro exI[of _ "nb # yc"]) simp
      next
        case False
        with dv have "d v = Finite k" by simp
        with ch obtain ys where ys: "rchain p ys" "hd ys = v" "last ys = src"
          "set (tl ys) \<subseteq> S" "valid_path s (rev ys)" "path_cost s (rev ys) = k"
          unfolding chains_def Pair by fastforce
        from ys(1) have "ys \<noteq> []" by auto
        then have "ys = v # tl ys" using ys(2) by (cases ys) auto
        with ys(4) nbS False have "nb \<notin> set ys"
          by (metis set_ConsD subsetD)
        then have "rchain (p(nb \<mapsto> cur)) ys"
          using ys(1) by (simp add: rchain_upd)
        with ys show ?thesis by blast
      qed
    qed
  qed
qed

lemma fold_relax_frame:
  "v \<notin> set unv \<Longrightarrow> fst (fold (relax s cur unv) ns dp) v = fst dp v
     \<and> snd (fold (relax s cur unv) ns dp) v = snd dp v"
  by (induction ns arbitrary: dp) (simp_all add: relax_frame)

lemma fold_relax_mono: "\<not> dist_lt (fst dp v) (fst (fold (relax s cur unv) ns dp) v)"
proof (induction ns arbitrary: dp)
  case Nil
  show ?case by simp
next
  case (Cons n ns)
  have "\<not> dist_lt (fst (relax s cur unv n dp) v) (fst (fold (relax s cur unv) ns (relax s cur unv n dp)) v)"
    by (rule Cons.IH)
  moreover have "\<not> dist_lt (fst dp v) (fst (relax s cur unv n dp) v)"
    by (rule relax_mono)
  ultimately show ?case
    using dist_le_trans by auto
qed

lemma fold_relax_bound:
  assumes "cur \<notin> set unv"
  shows "y \<in> set ns \<Longrightarrow> y \<in> set unv \<Longrightarrow>
    \<not> dist_lt (dist_add (fst dp cur) (latency s cur)) (fst (fold (relax s cur unv) ns dp) y)"
proof (induction ns arbitrary: dp)
  case Nil
  then show ?case by simp
next
  case (Cons n ns)
  have same: "fst (relax s cur unv n dp) cur = fst dp cur"
    using relax_frame[OF assms] by simp
  show ?case
  proof (cases "y \<in> set ns")
    case True
    from Cons.IH[OF True Cons.prems(2), of "relax s cur unv n dp"] same
    show ?thesis by simp
  next
    case False
    with Cons.prems have yn: "y = n" by simp
    from Cons.prems(2) assms have "cur \<noteq> y" by auto
    with relax_bound[of y unv cur dp s] Cons.prems(2)
    have b: "\<not> dist_lt (dist_add (fst dp cur) (latency s cur)) (fst (relax s cur unv y dp) y)"
      by simp
    have m: "\<not> dist_lt (fst (relax s cur unv y dp) y) (fst (fold (relax s cur unv) ns (relax s cur unv y dp)) y)"
      by (rule fold_relax_mono)
    from m b have "\<not> dist_lt (dist_add (fst dp cur) (latency s cur))
        (fst (fold (relax s cur unv) ns (relax s cur unv y dp)) y)"
      by (rule dist_le_trans)
    then show ?thesis by (simp add: yn)
  qed
qed

lemma fold_relax_chains:
  assumes cur: "cur \<in> S" and dis: "set unv \<inter> S = {}"
  shows "chains s src S (fst dp) (snd dp) \<Longrightarrow> (\<And>n. n \<in> set ns \<Longrightarrow> linked s cur n) \<Longrightarrow>
    chains s src S (fst (fold (relax s cur unv) ns dp)) (snd (fold (relax s cur unv) ns dp))"
proof (induction ns arbitrary: dp)
  case Nil
  then show ?case by simp
next
  case (Cons n ns)
  have "chains s src S (fst (relax s cur unv n dp)) (snd (relax s cur unv n dp))"
    using relax_chains[OF Cons.prems(1) cur dis] Cons.prems(2) by simp
  from Cons.IH[OF this] Cons.prems(2) show ?case by simp
qed

lemma chains_mono: "chains s src S d p \<Longrightarrow> S \<subseteq> S' \<Longrightarrow> chains s src S' d p"
  unfolding chains_def by (meson subset_trans)

lemma valid_path_nonempty: "valid_path s q \<Longrightarrow> q \<noteq> []"
  by auto

lemma valid_path_Cons: "valid_path s q \<Longrightarrow> linked s x (hd q) \<Longrightarrow> valid_path s (x # q)"
  by (cases q) auto

lemma path_cost_Cons: "q \<noteq> [] \<Longrightarrow> path_cost s (x # q) = latency s x + path_cost s q"
  by (simp add: path_cost_def)

lemma path_cost_single [simp]: "path_cost s [x] = 0"
  by (simp add: path_cost_def)

lemma chains_nonneg:
  assumes "wf_topology s" and "src \<in> set (nodes s)" and "chains s src S d p" and "d v = Finite k"
  shows "0 \<le> k"
proof -
  from assms(3,4) obtain ys where ys: "rchain p ys" "last ys = src"
      "valid_path s (rev ys)" "path_cost s (rev ys) = k"
    unfolding chains_def by blast
  from ys(1) have "ys \<noteq> []" by auto
  with ys(2) assms(2) have "hd (rev ys) \<in> set (nodes s)" by (simp add: hd_rev)
  from valid_path_closed[OF assms(1) ys(3) this] have "set (rev ys) \<subseteq> set (nodes s)" .
  from path_cost_nonneg[OF assms(1) this] ys(4) show ?thesis by simp
qed

lemma path_crossing:
  "wf_topology s \<Longrightarrow> valid_path s q \<Longrightarrow> set q \<subseteq> set (nodes s) \<Longrightarrow> hd q \<in> S \<Longrightarrow> last q \<notin> S \<Longrightarrow>
   \<exists>x y q1. x \<in> S \<and> y \<notin> S \<and> y \<in> set q \<and> linked s x y \<and> path_from_to s (hd q) x q1
      \<and> path_cost s q1 + latency s x \<le> path_cost s q"
proof (induction s q rule: valid_path.induct)
  case (1 s)
  then show ?case by simp
next
  case (2 s x)
  then show ?case by simp
next
  case (3 s x y zs)
  from "3.prems" have lk: "linked s x y" and vp: "valid_path s (y # zs)"
    and sub: "set (y # zs) \<subseteq> set (nodes s)" and xS: "x \<in> S"
    and lastS: "last (y # zs) \<notin> S"
    by simp_all
  have cost: "path_cost s (x # y # zs) = latency s x + path_cost s (y # zs)"
    by (simp add: path_cost_Cons)
  show ?case
  proof (cases "y \<in> S")
    case False
    have "0 \<le> path_cost s (y # zs)"
      using path_cost_nonneg[OF "3.prems"(1) sub] .
    then have "path_cost s [x] + latency s x \<le> path_cost s (x # y # zs)"
      using cost by simp
    moreover have "path_from_to s (hd (x # y # zs)) x [x]"
      by (simp add: path_from_to_def)
    ultimately show ?thesis
      using xS False lk by (intro exI[of _ x] exI[of _ y] exI[of _ "[x]"]) simp
  next
    case True
    then have "hd (y # zs) \<in> S" by simp
    from "3.IH"[OF "3.prems"(1) vp sub this lastS]
    obtain x' y' q1 where h: "x' \<in> S" "y' \<notin> S" "y' \<in> set (y # zs)" "linked s x' y'"
      "path_from_to s y x' q1" "path_cost s q1 + latency s x' \<le> path_cost s (y # zs)"
      by auto
    from h(5) have q1: "valid_path s q1" "hd q1 = y" "last q1 = x'"
      by (simp_all add: path_from_to_def)
    then have ne: "q1 \<noteq> []" by auto
    then have q1eq: "q1 = y # tl q1" using q1(2) by (cases q1) auto
    have vq: "valid_path s (x # q1)"
      using lk q1(1,2) by (simp add: valid_path_Cons)
    have pf: "path_from_to s (hd (x # y # zs)) x' (x # q1)"
      using vq q1(3) ne by (simp add: path_from_to_def)
    have "path_cost s (x # q1) + latency s x' \<le> path_cost s (x # y # zs)"
      using h(6) cost ne by (simp add: path_cost_Cons)
    with pf h(1-4) show ?thesis
      by (intro exI[of _ x'] exI[of _ y'] exI[of _ "x # q1"]) simp
  qed
qed

lemma dijkstra_min_optimal:
  assumes wf: "wf_topology s" and inv: "dijkstra_inv s src d p (u # us)"
    and cur: "cur = min_by d u us" and k: "d cur = Finite k"
    and q: "path_from_to s src cur q"
  shows "k \<le> path_cost s q"
proof -
  let ?V = "set (nodes s)" and ?S = "set (nodes s) - set (u # us)"
  from inv have srcV: "src \<in> ?V" and unvV: "set (u # us) \<subseteq> ?V" and dsrc: "d src = Finite 0"
    unfolding dijkstra_inv_def by simp_all
  from q have vq: "valid_path s q" and hq: "hd q = src" and lq: "last q = cur"
    by (simp_all add: path_from_to_def)
  from valid_path_closed[OF wf vq] hq srcV have qV: "set q \<subseteq> ?V" by simp
  have nonneg: "0 \<le> path_cost s q" by (rule path_cost_nonneg[OF wf qV])
  have cur_in: "cur \<in> set (u # us)" unfolding cur by (rule min_by_in_set)
  show ?thesis
  proof (cases "src \<in> set (u # us)")
    case True
    from min_by_least[OF True, of d] have "\<not> dist_lt (d src) (d cur)" by (simp add: cur)
    with dsrc k have "k \<le> 0" by simp
    with nonneg show ?thesis by simp
  next
    case False
    with srcV have "hd q \<in> ?S" by (simp add: hq)
    moreover from cur_in have "last q \<notin> ?S" by (simp add: lq)
    ultimately obtain x y q1 where h: "x \<in> ?S" "y \<notin> ?S" "y \<in> set q" "linked s x y"
        "path_from_to s (hd q) x q1" "path_cost s q1 + latency s x \<le> path_cost s q"
      using path_crossing[OF wf vq qV, of ?S] by blast
    from h(2,3) qV have yu: "y \<in> set (u # us)" by auto
    from inv h(1) obtain kx where kx: "d x = Finite kx"
        and opt: "\<forall>q. path_from_to s src x q \<longrightarrow> kx \<le> path_cost s q"
      unfolding dijkstra_inv_def by blast
    from opt h(5) hq have kxq: "kx \<le> path_cost s q1" by simp
    from inv h(1,4) yu have "\<not> dist_lt (dist_add (d x) (latency s x)) (d y)"
      unfolding dijkstra_inv_def linked_def by blast
    then obtain ky where ky: "d y = Finite ky" and kyle: "ky \<le> kx + latency s x"
      using kx by (cases "d y") auto
    from min_by_least[OF yu, of d] have "\<not> dist_lt (d y) (d cur)" by (simp add: cur)
    with ky k have "k \<le> ky" by simp
    with kyle kxq h(6) show ?thesis by linarith
  qed
qed

lemma dijkstra_inv_step:
  assumes wf: "wf_topology s" and inv: "dijkstra_inv s src d p (u # us)"
    and cur: "cur = min_by d u us" and k: "d cur = Finite k"
    and unv': "unv' = removeAll cur (u # us)"
    and dp: "dp = fold (relax s cur unv') (connections s cur) (d, p)"
  shows "dijkstra_inv s src (fst dp) (snd dp) unv'"
proof -
  let ?V = "set (nodes s)" and ?S = "set (nodes s) - set (u # us)"
  let ?S' = "set (nodes s) - set unv'"
  from inv have srcV: "src \<in> ?V" and unvV: "set (u # us) \<subseteq> ?V" and dsrc: "d src = Finite 0"
    and ch: "chains s src ?S d p"
    and D: "\<forall>x \<in> ?S. \<forall>y \<in> set (connections s x).
            y \<in> set (u # us) \<longrightarrow> \<not> dist_lt (dist_add (d x) (latency s x)) (d y)"
    and E: "\<forall>x \<in> ?S. \<exists>k. d x = Finite k \<and> (\<forall>q. path_from_to s src x q \<longrightarrow> k \<le> path_cost s q)"
    unfolding dijkstra_inv_def by simp_all
  have cur_in: "cur \<in> set (u # us)" unfolding cur by (rule min_by_in_set)
  with unvV have curV: "cur \<in> ?V" by auto
  have set_unv': "set unv' = set (u # us) - {cur}" unfolding unv' by (rule set_removeAll)
  have cur_notin: "cur \<notin> set unv'" by (simp add: unv')
  have S': "?S' = insert cur ?S" using curV set_unv' cur_in by auto
  have curS': "cur \<in> ?S'" using S' by simp
  have dis: "set unv' \<inter> ?S' = {}" by auto
  have frame: "\<And>v. v \<notin> set unv' \<Longrightarrow> fst dp v = d v"
    using fold_relax_frame[of _ unv' s cur "connections s cur" "(d, p)"] by (simp add: dp)
  have mono: "\<And>v. \<not> dist_lt (d v) (fst dp v)"
    using fold_relax_mono[of "(d, p)" _ s cur unv' "connections s cur"] by (simp add: dp)
  have ch0: "chains s src ?S' (fst (d, p)) (snd (d, p))"
    using chains_mono[OF ch, of ?S'] S' by auto
  have ch': "chains s src ?S' (fst dp) (snd dp)"
    unfolding dp
    by (rule fold_relax_chains[OF curS' dis ch0]) (simp add: linked_def)
  have dsrc': "fst dp src = Finite 0"
  proof (cases "src \<in> set unv'")
    case False
    then show ?thesis using frame dsrc by simp
  next
    case True
    from mono[of src] dsrc obtain k' where k': "fst dp src = Finite k'" and "k' \<le> 0"
      by (cases "fst dp src") auto
    moreover from chains_nonneg[OF wf srcV ch' k'] have "0 \<le> k'" .
    ultimately show ?thesis by simp
  qed
  have D': "\<forall>x \<in> ?S'. \<forall>y \<in> set (connections s x).
            y \<in> set unv' \<longrightarrow> \<not> dist_lt (dist_add (fst dp x) (latency s x)) (fst dp y)"
  proof (intro ballI impI)
    fix x y assume x: "x \<in> ?S'" and y: "y \<in> set (connections s x)" and yu: "y \<in> set unv'"
    from x have fx: "fst dp x = d x" using frame by auto
    show "\<not> dist_lt (dist_add (fst dp x) (latency s x)) (fst dp y)"
    proof (cases "x = cur")
      case True
      from fold_relax_bound[OF cur_notin, of y "connections s cur" "(d, p)" s] y yu True
      have "\<not> dist_lt (dist_add (d cur) (latency s cur)) (fst dp y)" by (simp add: dp)
      then show ?thesis using fx True by simp
    next
      case False
      with x S' have xS: "x \<in> ?S" by auto
      from yu set_unv' have "y \<in> set (u # us)" by auto
      with D xS y have "\<not> dist_lt (dist_add (d x) (latency s x)) (d y)" by blast
      from mono[of y] this have "\<not> dist_lt (dist_add (d x) (latency s x)) (fst dp y)"
        by (rule dist_le_trans)
      then show ?thesis by (simp add: fx)
    qed
  qed
  have E': "\<forall>x \<in> ?S'. \<exists>k. fst dp x = Finite k
      \<and> (\<forall>q. path_from_to s src x q \<longrightarrow> k \<le> path_cost s q)"
  proof
    fix x assume x: "x \<in> ?S'"
    from x have fx: "fst dp x = d x" using frame by auto
    show "\<exists>k. fst dp x = Finite k \<and> (\<forall>q. path_from_to s src x q \<longrightarrow> k \<le> path_cost s q)"
    proof (cases "x = cur")
      case True
      have "\<forall>q. path_from_to s src cur q \<longrightarrow> k \<le> path_cost s q"
        using dijkstra_min_optimal[OF wf inv cur k] by blast
      with True k fx show ?thesis by simp
    next
      case False
      with x S' have "x \<in> ?S" by auto
      with E fx show ?thesis by simp
    qed
  qed
  have "set unv' \<subseteq> ?V" using unvV set_unv' by auto
  with srcV dsrc' ch' D' E' show ?thesis
    unfolding dijkstra_inv_def by simp
qed

lemma valid_path_reachable: "valid_path s q \<Longrightarrow> reachable s (hd q) (last q)"
proof (induction s q rule: valid_path.induct)
  case (3 s x y zs)
  then have "(x, y) \<in> {(x, y). linked s x y}" and "reachable s y (last (y # zs))"
    by simp_all
  then show ?case
    unfolding reachable_def by (simp add: converse_rtrancl_into_rtrancl)
qed (simp_all add: reachable_def)

lemma reachable_imp_path: "reachable s a b \<Longrightarrow> \<exists>q. path_from_to s a b q"
  unfolding reachable_def
proof (induction rule: rtrancl_induct)
  case base
  have "path_from_to s a a [a]" by (simp add: path_from_to_def)
  then show ?case ..
next
  case (step y z)
  then obtain q where q: "valid_path s q" "hd q = a" "last q = y"
    by (auto simp: path_from_to_def)
  from step.hyps(2) have "linked s y z" by simp
  with q have "valid_path s (q @ [z])" by (simp add: valid_path_snoc)
  moreover from q(1) have "q \<noteq> []" by auto
  ultimately have "path_from_to s a z (q @ [z])"
    using q(2) by (simp add: path_from_to_def)
  then show ?case ..
qed

lemma reachable_iff_path: "reachable s a b \<longleftrightarrow> (\<exists>q. path_from_to s a b q)"
  using reachable_imp_path valid_path_reachable unfolding path_from_to_def by blast

lemma dijkstra_exit_unreachable:
  assumes wf: "wf_topology s" and inv: "dijkstra_inv s src d p (u # us)"
    and cur: "cur = min_by d u us" and inf: "d cur = Infinity"
    and dst: "dst \<in> set (u # us)"
  shows "\<not> reachable s src dst"
proof
  let ?V = "set (nodes s)" and ?S = "set (nodes s) - set (u # us)"
  assume "reachable s src dst"
  then obtain q where q: "valid_path s q" "hd q = src" "last q = dst"
    by (auto simp: reachable_iff_path path_from_to_def)
  from inv have srcV: "src \<in> ?V" and dsrc: "d src = Finite 0"
    unfolding dijkstra_inv_def by simp_all
  have all_inf: "\<And>y. y \<in> set (u # us) \<Longrightarrow> d y = Infinity"
  proof -
    fix y assume "y \<in> set (u # us)"
    from min_by_least[OF this, of d] have "\<not> dist_lt (d y) (d cur)" by (simp add: cur)
    with inf show "d y = Infinity" by (cases "d y") auto
  qed
  from all_inf[of src] dsrc have "src \<notin> set (u # us)" by auto
  with srcV q(2) have "hd q \<in> ?S" by simp
  moreover from dst q(3) have "last q \<notin> ?S" by simp
  moreover from valid_path_closed[OF wf q(1)] q(2) srcV have qV: "set q \<subseteq> ?V" by simp
  ultimately obtain x y where h: "x \<in> ?S" "y \<notin> ?S" "y \<in> set q" "linked s x y"
    using path_crossing[OF wf q(1), of ?S] by blast
  from h(2,3) qV have yu: "y \<in> set (u # us)" by auto
  from inv h(1) obtain kx where kx: "d x = Finite kx"
    unfolding dijkstra_inv_def by blast
  from inv h(1,4) yu have "\<not> dist_lt (dist_add (d x) (latency s x)) (d y)"
    unfolding dijkstra_inv_def linked_def by blast
  with kx all_inf[OF yu] show False by simp
qed

lemma dijkstra_loop_correct:
  "wf_topology s \<Longrightarrow> dijkstra_inv s src d p unv \<Longrightarrow> dst \<in> set unv \<Longrightarrow>
   (case dijkstra_loop s dst d p unv of
      None \<Rightarrow> \<not> reachable s src dst
    | Some (d', p') \<Rightarrow>
        (\<exists>k ys. d' dst = Finite k \<and> rchain p' ys \<and> hd ys = dst \<and> last ys = src
           \<and> valid_path s (rev ys) \<and> path_cost s (rev ys) = k
           \<and> (\<forall>q. path_from_to s src dst q \<longrightarrow> k \<le> path_cost s q)))"
proof (induction s dst d p unv rule: dijkstra_loop.induct)
  case (1 s destination distances previous)
  then show ?case by simp
next
  case (2 s destination distances previous u us)
  define current where "current = min_by distances u us"
  show ?case
  proof (cases "distances current = Infinity")
    case True
    from dijkstra_exit_unreachable[OF "2.prems"(1,2) current_def True "2.prems"(3)] True
    show ?thesis
      by (simp add: dijkstra_loop.simps(2)[of s destination distances previous u us]
          current_def[symmetric])
  next
    case False
    then obtain k where k: "distances current = Finite k"
      by (cases "distances current") auto
    show ?thesis
    proof (cases "current = destination")
      case True
      from "2.prems"(2) k have "\<exists>ys. rchain previous ys \<and> hd ys = current \<and> last ys = src
          \<and> valid_path s (rev ys) \<and> path_cost s (rev ys) = k"
        unfolding dijkstra_inv_def chains_def by blast
      moreover have "\<forall>q. path_from_to s src current q \<longrightarrow> k \<le> path_cost s q"
        using dijkstra_min_optimal[OF "2.prems"(1,2) current_def k] by blast
      ultimately show ?thesis
        using True k
        by (simp add: dijkstra_loop.simps(2)[of s destination distances previous u us]
            current_def[symmetric])
    next
      case ne: False
      define unvisited where "unvisited = removeAll current (u # us)"
      define dp where "dp = fold (relax s current unvisited) (connections s current) (distances, previous)"
      have inv': "dijkstra_inv s src (fst dp) (snd dp) unvisited"
        by (rule dijkstra_inv_step[OF "2.prems"(1,2) current_def k unvisited_def dp_def])
      have dst_in: "destination \<in> set unvisited"
        using "2.prems"(3) ne unfolding unvisited_def set_removeAll by blast
      have unfold: "dijkstra_loop s destination distances previous (u # us)
          = dijkstra_loop s destination (fst dp) (snd dp) unvisited"
        unfolding dijkstra_loop.simps(2)[of s destination distances previous u us]
          current_def[symmetric] Let_def unvisited_def[symmetric] dp_def[symmetric]
        using False ne by simp
      from "2.IH"[OF current_def False ne unvisited_def dp_def "2.prems"(1) inv' dst_in]
      show ?thesis unfolding unfold .
    qed
  qed
qed

lemma dijkstra_inv_init:
  assumes "src \<in> set (nodes s)" and "set order = set (nodes s)"
  shows "dijkstra_inv s src ((\<lambda>node. Infinity)(src := Finite 0)) (\<lambda>node. None) order"
proof -
  have "rchain (\<lambda>node. None) [src]" by simp
  then have "chains s src (set (nodes s) - set order) ((\<lambda>node. Infinity)(src := Finite 0)) (\<lambda>node. None)"
    unfolding chains_def
    by (intro allI impI exI[of _ "[src]"]) (auto split: if_splits)
  with assms show ?thesis
    unfolding dijkstra_inv_def by simp
qed

text \<open>The full contract of the router.\<close>

lemma dijkstra_shortest_path_correct:
  assumes wf: "wf_topology s" and a: "a \<in> set (nodes s)" and b: "b \<in> set (nodes s)"
    and order: "set order = set (nodes s)"
  shows "(\<not> reachable s a b \<and> dijkstra_shortest_path s order a b = Some (None, Infinity))
       \<or> (\<exists>path. reachable s a b
            \<and> dijkstra_shortest_path s order a b = Some (Some path, Finite (path_cost s path))
            \<and> path_from_to s a b path
            \<and> (\<forall>q. path_from_to s a b q \<longrightarrow> path_cost s path \<le> path_cost s q))"
proof -
  let ?d = "(\<lambda>node. Infinity)(a := Finite 0)" and ?p = "\<lambda>node. None :: nat option"
  have inv: "dijkstra_inv s a ?d ?p order"
    by (rule dijkstra_inv_init[OF a order])
  from b order have bo: "b \<in> set order" by simp
  note lc = dijkstra_loop_correct[OF wf inv bo]
  show ?thesis
  proof (cases "dijkstra_loop s b ?d ?p order")
    case None
    with lc show ?thesis
      by (simp add: dijkstra_shortest_path_def)
  next
    case (Some r)
    obtain d' p' where r: "r = (d', p')" by (cases r)
    from lc Some r obtain k ys where h: "d' b = Finite k" "rchain p' ys" "hd ys = b" "last ys = a"
        "valid_path s (rev ys)" "path_cost s (rev ys) = k"
        "\<forall>q. path_from_to s a b q \<longrightarrow> k \<le> path_cost s q"
      by auto
    from h(2) have ne: "ys \<noteq> []" by auto
    from reconstruct_rchain[OF h(2), of "[]"] h(3)
    have rec: "reconstruct p' (Some b) [] = Some ys" by simp
    have pf: "path_from_to s a b (rev ys)"
      using h(3,4,5) ne by (simp add: path_from_to_def hd_rev last_rev)
    then have "reachable s a b" using reachable_iff_path by blast
    moreover have "dijkstra_shortest_path s order a b = Some (Some (rev ys), Finite (path_cost s (rev ys)))"
      by (simp add: dijkstra_shortest_path_def Some r rec h(1,6))
    ultimately show ?thesis using pf h(6,7) by blast
  qed
qed

lemma closed_reachable:
  assumes "reachable s a b" and "a \<in> A" and "\<forall>x \<in> A. \<forall>y \<in> set (connections s x). y \<in> A"
  shows "b \<in> A"
  using assms(1) unfolding reachable_def
proof (induction rule: rtrancl_induct)
  case base
  show ?case by (rule assms(2))
next
  case (step y z)
  with assms(3) show ?case by (auto simp: linked_def)
qed

lemma bfs_inv_visit:
  assumes wf: "wf_topology s" and inv: "bfs_inv s src dst visited ((node, path) # rest)"
    and nd: "node \<noteq> dst" and nv: "node \<notin> visited"
  shows "bfs_inv s src dst (insert node visited)
           (rest @ map (\<lambda>neighbor. (neighbor, path @ [neighbor]))
                     (filter (\<lambda>neighbor. neighbor \<notin> insert node visited) (connections s node)))"
proof -
  let ?V = "set (nodes s)"
  let ?new = "map (\<lambda>neighbor. (neighbor, path @ [neighbor]))
                (filter (\<lambda>neighbor. neighbor \<notin> insert node visited) (connections s node))"
  from inv have vis: "visited \<subseteq> ?V" and nodeV: "node \<in> ?V"
    and pnode: "path_from_to s src node path"
    and restq: "\<forall>e \<in> set rest. fst e \<in> ?V \<and> path_from_to s src (fst e) (snd e)"
    and srcq: "src \<in> visited \<or> src = node \<or> src \<in> fst ` set rest"
    and dstv: "dst \<notin> visited"
    and cl: "\<forall>x \<in> visited. \<forall>y \<in> set (connections s x).
               y \<in> visited \<or> y = node \<or> y \<in> fst ` set rest"
    unfolding bfs_inv_def by auto
  from pnode have vp: "valid_path s path" and hp: "hd path = src" and lp: "last path = node"
    by (simp_all add: path_from_to_def)
  then have pne: "path \<noteq> []" by auto
  have newq: "\<forall>e \<in> set ?new. fst e \<in> ?V \<and> path_from_to s src (fst e) (snd e)"
  proof
    fix e assume "e \<in> set ?new"
    then obtain nb where nb: "nb \<in> set (connections s node)" and e: "e = (nb, path @ [nb])"
      by auto
    from wf nodeV nb have "nb \<in> ?V" unfolding wf_topology_def by blast
    moreover from nb lp have "linked s (last path) nb" by (simp add: linked_def)
    with vp have "valid_path s (path @ [nb])" by (rule valid_path_snoc)
    with hp pne have "path_from_to s src nb (path @ [nb])"
      by (simp add: path_from_to_def)
    ultimately show "fst e \<in> ?V \<and> path_from_to s src (fst e) (snd e)"
      by (simp add: e)
  qed
  have fst_new: "fst ` set ?new = {nb \<in> set (connections s node). nb \<notin> insert node visited}"
    by (auto simp: image_iff)
  have 1: "insert node visited \<subseteq> ?V" using vis nodeV by simp
  have 2: "\<forall>e \<in> set (rest @ ?new). fst e \<in> ?V \<and> path_from_to s src (fst e) (snd e)"
    using restq newq by auto
  have 3: "src \<in> insert node visited \<or> src \<in> fst ` set (rest @ ?new)"
    using srcq by auto
  have 4: "dst \<notin> insert node visited" using dstv nd by simp
  have 5: "\<forall>x \<in> insert node visited. \<forall>y \<in> set (connections s x).
      y \<in> insert node visited \<or> y \<in> fst ` set (rest @ ?new)"
  proof (intro ballI)
    fix x y assume x: "x \<in> insert node visited" and y: "y \<in> set (connections s x)"
    show "y \<in> insert node visited \<or> y \<in> fst ` set (rest @ ?new)"
    proof (cases "x = node")
      case True
      with y fst_new show ?thesis by (auto simp: image_Un)
    next
      case False
      with x have "x \<in> visited" by simp
      with cl y have "y \<in> visited \<or> y = node \<or> y \<in> fst ` set rest" by blast
      then show ?thesis by (auto simp: image_Un)
    qed
  qed
  from 1 2 3 4 5 show ?thesis unfolding bfs_inv_def by blast
qed

lemma bfs_inv_skip:
  assumes inv: "bfs_inv s src dst visited ((node, path) # rest)" and v: "node \<in> visited"
  shows "bfs_inv s src dst visited rest"
  using assms unfolding bfs_inv_def by auto

lemma bfs_order_wf:
  "wf (inv_image (less_than <*lex*> less_than)
         (\<lambda>vq :: nat set \<times> (nat \<times> nat list) list. (card (set (nodes s) - fst vq), length (snd vq))))"
  by (intro wf_inv_image wf_lex_prod wf_less_than)

lemma find_path_loop_correct:
  assumes wf: "wf_topology s"
  shows "bfs_inv s src dst (fst vq) (snd vq) \<Longrightarrow>
    \<exists>r. find_path_loop s dst (fst vq) (snd vq) = Some r
       \<and> (case r of None \<Rightarrow> \<not> reachable s src dst | Some path \<Rightarrow> path_from_to s src dst path)"
proof (induction vq rule: wf_induct_rule[OF bfs_order_wf[of s]])
  case (1 vq)
  obtain visited queue where vq: "vq = (visited, queue)" by (cases vq)
  from "1.prems" have inv: "bfs_inv s src dst visited queue" by (simp add: vq)
  show ?case
  proof (cases queue)
    case Nil
    from inv Nil have "src \<in> visited" and "dst \<notin> visited"
      and "\<forall>x \<in> visited. \<forall>y \<in> set (connections s x). y \<in> visited"
      unfolding bfs_inv_def by auto
    then have "\<not> reachable s src dst"
      using closed_reachable[of s src dst visited] by blast
    moreover have "find_path_loop s dst visited [] = Some None"
      by (subst find_path_loop.simps) simp
    ultimately show ?thesis by (simp add: vq Nil)
  next
    case (Cons e rest)
    obtain node path where e: "e = (node, path)" by (cases e)
    note q = Cons[unfolded e]
    show ?thesis
    proof (cases "node = dst")
      case True
      from inv q True have "path_from_to s src dst path"
        unfolding bfs_inv_def by auto
      moreover have "find_path_loop s dst visited ((node, path) # rest) = Some (Some path)"
        by (subst find_path_loop.simps) (simp add: True)
      ultimately show ?thesis by (simp add: vq q)
    next
      case nd: False
      show ?thesis
      proof (cases "node \<in> visited")
        case True
        let ?vq' = "(visited, rest)"
        have "(?vq', vq) \<in> inv_image (less_than <*lex*> less_than)
          (\<lambda>vq. (card (set (nodes s) - fst vq), length (snd vq)))"
          by (simp add: vq q)
        moreover have "bfs_inv s src dst (fst ?vq') (snd ?vq')"
          using bfs_inv_skip[OF inv[unfolded q] True] by simp
        ultimately obtain r where r: "find_path_loop s dst visited rest = Some r"
          "case r of None \<Rightarrow> \<not> reachable s src dst | Some path \<Rightarrow> path_from_to s src dst path"
          using "1.IH"[of ?vq'] by auto
        have "find_path_loop s dst visited ((node, path) # rest) = find_path_loop s dst visited rest"
          by (subst find_path_loop.simps) (simp add: nd True)
        with r show ?thesis by (simp add: vq q)
      next
        case False
        let ?queue' = "rest @ map (\<lambda>neighbor. (neighbor, path @ [neighbor]))
                     (filter (\<lambda>neighbor. neighbor \<notin> insert node visited) (connections s node))"
        let ?vq' = "(insert node visited, ?queue')"
        from inv q have "node \<in> set (nodes s)" unfolding bfs_inv_def by auto
        with False have "set (nodes s) - insert node visited \<subset> set (nodes s) - visited"
          by auto
        then have "card (set (nodes s) - insert node visited) < card (set (nodes s) - visited)"
          by (intro psubset_card_mono) simp_all
        then have "(?vq', vq) \<in> inv_image (less_than <*lex*> less_than)
          (\<lambda>vq. (card (set (nodes s) - fst vq), length (snd vq)))"
          by (simp add: vq)
        moreover have "bfs_inv s src dst (fst ?vq') (snd ?vq')"
          using bfs_inv_visit[OF wf inv[unfolded q] nd False] by simp
        ultimately obtain r where r: "find_path_loop s dst (insert node visited) ?queue' = Some r"
          "case r of None \<Rightarrow> \<not> reachable s src dst | Some path \<Rightarrow> path_from_to s src dst path"
          using "1.IH"[of ?vq'] by auto
        have "find_path_loop s dst visited ((node, path) # rest)
            = find_path_loop s dst (insert node visited) ?queue'"
          by (subst find_path_loop.simps) (simp add: nd False Let_def)
        with r show ?thesis by (simp add: vq q)
      qed
    qed
  qed
qed

lemma find_path_correct:
  assumes wf: "wf_topology s" and a: "a \<in> set (nodes s)"
  shows "\<exists>r. find_path s a b = Some r
       \<and> (case r of None \<Rightarrow> \<not> reachable s a b | Some path \<Rightarrow> path_from_to s a b path)"
proof -
  have "bfs_inv s a b {} [(a, [a])]"
    using a unfolding bfs_inv_def by (simp add: path_from_to_def)
  then have "bfs_inv s a b (fst ({}, [(a, [a])])) (snd ({}, [(a, [a])]))" by simp
  from find_path_loop_correct[OF wf this] show ?thesis
    by (simp add: find_path_def)
qed

lemma example_wf: "wf_topology example_network"
  by (simp add: wf_topology_def example_network_def)

lemma ex_dij: "dijkstra_shortest_path example_network [3, 1, 4, 0, 2] 0 3 = Some (Some [0, 1, 3], Finite 15)"
  by (simp add: dijkstra_shortest_path_def example_network_def dijkstra_loop.simps relax_def
      reconstruct.simps Let_def)

lemma ex_dij2: "dijkstra_shortest_path example_network [3, 1, 4, 0, 2] 0 4 = Some (None, Infinity)"
  by (simp add: dijkstra_shortest_path_def example_network_def dijkstra_loop.simps relax_def
      reconstruct.simps Let_def)

lemma ex_fp: "find_path example_network 0 3 = Some (Some [0, 1, 3])"
  by (simp add: find_path_def example_network_def find_path_loop.simps Let_def)

lemma ex_fp2: "find_path example_network 0 4 = Some None"
  by (simp add: find_path_def example_network_def find_path_loop.simps Let_def)

lemma same_component_reachable:
  assumes wf: "wf_topology s" and a: "a \<in> set (nodes s)"
  shows "same_component s a b \<longleftrightarrow> reachable s a b"
proof
  assume "same_component s a b"
  then show "reachable s a b"
    unfolding same_component_def
  proof (induction rule: rtrancl_induct)
    case base
    show ?case by (simp add: reachable_def)
  next
    case (step y z)
    then have y: "y \<in> set (nodes s)" and z: "z \<in> set (nodes s)"
      and l: "linked s y z \<or> linked s z y" by auto
    with wf have "linked s y z" unfolding wf_topology_def linked_def by blast
    with step.IH show ?case unfolding reachable_def by (simp add: rtrancl_into_rtrancl)
  qed
next
  assume "reachable s a b"
  then have "same_component s a b \<and> b \<in> set (nodes s)"
    unfolding reachable_def
  proof (induction rule: rtrancl_induct)
    case base
    show ?case using a by (simp add: same_component_def)
  next
    case (step y z)
    then have y: "y \<in> set (nodes s)" and l: "linked s y z" by auto
    with wf have z: "z \<in> set (nodes s)" unfolding wf_topology_def linked_def by blast
    with y l have "(y, z) \<in> {(x, y). x \<in> set (nodes s) \<and> y \<in> set (nodes s)
        \<and> (linked s x y \<or> linked s y x)}" by simp
    with step.IH z show ?case unfolding same_component_def
      by (meson rtrancl_into_rtrancl)
  qed
  then show "same_component s a b" ..
qed

subsection \<open>The contract of \<open>dijkstra_shortest_path\<close> and \<open>find_path\<close>\<close>

text \<open>
  C1. In every topology and for all of its nodes a and b, dijkstra_shortest_path(a, b)
  returns, and when it returns a path with a total latency, the path is a valid path from
  a to b (consecutive nodes are linked) and every path q from a to b has a sum of latency
  over its nodes except the destination that is at least the returned total latency.
\<close>

theorem dijkstra_returns_shortest_path:
  assumes "wf_topology s" and "a \<in> set (nodes s)" and "b \<in> set (nodes s)"
    and "set iteration_order = set (nodes s)"
  shows "\<exists>r. dijkstra_shortest_path s iteration_order a b = Some r
     \<and> (\<forall>path total_latency. r = (Some path, total_latency) \<longrightarrow>
           valid_path s path \<and> hd path = a \<and> last path = b
           \<and> (\<exists>k. total_latency = Finite k
                 \<and> (\<forall>q. path_from_to s a b q \<longrightarrow> k \<le> sum_list (map (latency s) (butlast q)))))"
  using dijkstra_shortest_path_correct[OF assms]
  by (auto simp: path_from_to_def path_cost_def)

theorem dijkstra_returns_shortest_path_witness:
  "wf_topology example_network
   \<and> dijkstra_shortest_path example_network [3, 1, 4, 0, 2] 0 3 = Some (Some [0, 1, 3], Finite 15)
   \<and> valid_path example_network [0, 1, 3]
   \<and> path_from_to example_network 0 3 [0, 2, 3]
   \<and> (15::int) \<le> sum_list (map (latency example_network) (butlast [0, 2, 3]))"
proof -
  have n: "(0::nat) \<in> set (nodes example_network)" "(3::nat) \<in> set (nodes example_network)"
    "set [3, 1, 4, 0, 2] = set (nodes example_network)"
    by (auto simp: example_network_def)
  have q: "path_from_to example_network 0 3 [0, 2, 3]"
    by (simp add: path_from_to_def linked_def example_network_def)
  from dijkstra_returns_shortest_path[OF example_wf n] ex_dij q
  show ?thesis using example_wf by auto
qed

text \<open>
  C2. In every topology and for all of its nodes a and b, dijkstra_shortest_path(a, b) and
  find_path(a, b) both return; dijkstra_shortest_path returns None for the path exactly
  when b is not reachable from a over the links, which is when a and b lie in different
  connected components, and exactly when find_path returns None.
\<close>

theorem dijkstra_none_iff_unreachable:
  assumes "wf_topology s" and "a \<in> set (nodes s)" and "b \<in> set (nodes s)"
    and "set iteration_order = set (nodes s)"
  shows "\<exists>r r'. dijkstra_shortest_path s iteration_order a b = Some r
     \<and> find_path s a b = Some r'
     \<and> (fst r = None \<longleftrightarrow> \<not> reachable s a b)
     \<and> (fst r = None \<longleftrightarrow> \<not> same_component s a b)
     \<and> (fst r = None \<longleftrightarrow> r' = None)"
proof -
  from find_path_correct[OF assms(1,2), of b] obtain r' where
    r': "find_path s a b = Some r'"
    "case r' of None \<Rightarrow> \<not> reachable s a b | Some path \<Rightarrow> path_from_to s a b path"
    by blast
  have bfs: "r' = None \<longleftrightarrow> \<not> reachable s a b"
    using r'(2) reachable_iff_path by (cases r') auto
  from dijkstra_shortest_path_correct[OF assms] obtain r where
    r: "dijkstra_shortest_path s iteration_order a b = Some r"
    "fst r = None \<longleftrightarrow> \<not> reachable s a b"
    by auto
  from r r'(1) bfs same_component_reachable[OF assms(1,2), of b] show ?thesis
    by auto
qed

theorem dijkstra_none_iff_unreachable_witness:
  "wf_topology example_network
   \<and> dijkstra_shortest_path example_network [3, 1, 4, 0, 2] 0 4 = Some (None, Infinity)
   \<and> find_path example_network 0 4 = Some None
   \<and> \<not> reachable example_network 0 4 \<and> \<not> same_component example_network 0 4
   \<and> dijkstra_shortest_path example_network [3, 1, 4, 0, 2] 0 3 = Some (Some [0, 1, 3], Finite 15)
   \<and> find_path example_network 0 3 = Some (Some [0, 1, 3])
   \<and> reachable example_network 0 3 \<and> same_component example_network 0 3"
proof -
  have n: "(0::nat) \<in> set (nodes example_network)" "(3::nat) \<in> set (nodes example_network)"
    "(4::nat) \<in> set (nodes example_network)"
    "set [3, 1, 4, 0, 2] = set (nodes example_network)"
    by (auto simp: example_network_def)
  from dijkstra_none_iff_unreachable[OF example_wf n(1,3,4)] ex_dij2 ex_fp2
  have "\<not> reachable example_network 0 4 \<and> \<not> same_component example_network 0 4" by auto
  moreover from dijkstra_none_iff_unreachable[OF example_wf n(1,2,4)] ex_dij ex_fp
  have "reachable example_network 0 3 \<and> same_component example_network 0 3" by auto
  ultimately show ?thesis using example_wf ex_dij ex_dij2 ex_fp ex_fp2 by simp
qed

text \<open>
  C3. Whenever dijkstra_shortest_path(a, b) returns a path, the returned total latency is
  the sum of latency over all nodes of that path except the last one.
\<close>

theorem dijkstra_total_latency_is_path_sum:
  assumes "wf_topology s" and "a \<in> set (nodes s)" and "b \<in> set (nodes s)"
    and "set iteration_order = set (nodes s)"
  shows "\<exists>r. dijkstra_shortest_path s iteration_order a b = Some r
     \<and> (\<forall>path total_latency. r = (Some path, total_latency) \<longrightarrow>
           total_latency = Finite (sum_list (map (latency s) (butlast path))))"
  using dijkstra_shortest_path_correct[OF assms]
  by (auto simp: path_cost_def)

theorem dijkstra_total_latency_is_path_sum_witness:
  "wf_topology example_network
   \<and> dijkstra_shortest_path example_network [0, 1, 2, 3, 4] 2 1 = Some (Some [2, 3, 1], Finite 27)
   \<and> Finite 27 = Finite (sum_list (map (latency example_network) (butlast [2, 3, 1])))"
proof -
  have n: "(2::nat) \<in> set (nodes example_network)" "(1::nat) \<in> set (nodes example_network)"
    "set [0, 1, 2, 3, 4] = set (nodes example_network)"
    by (auto simp: example_network_def)
  have e: "dijkstra_shortest_path example_network [0, 1, 2, 3, 4] 2 1 = Some (Some [2, 3, 1], Finite 27)"
    by (simp add: dijkstra_shortest_path_def example_network_def dijkstra_loop.simps relax_def
      reconstruct.simps Let_def)
  from dijkstra_total_latency_is_path_sum[OF example_wf n] e
  show ?thesis using example_wf by auto
qed

text \<open>
  C10. For every node a of the topology, dijkstra_shortest_path(a, a) returns the one-node
  path [a] with total latency 0, not None and not an error.
\<close>

theorem dijkstra_same_node:
  assumes "a \<in> set (nodes s)" and "set iteration_order = set (nodes s)"
  shows "dijkstra_shortest_path s iteration_order a a = Some (Some [a], Finite 0)"
proof -
  let ?d = "(\<lambda>node. Infinity)(a := Finite 0)" and ?p = "\<lambda>node. None :: nat option"
  from assms have ain: "a \<in> set iteration_order" by simp
  then obtain u us where o: "iteration_order = u # us" by (cases iteration_order) auto
  define current where "current = min_by ?d u us"
  from min_by_least[of a u us ?d] ain have "\<not> dist_lt (?d a) (?d current)"
    by (simp add: o current_def)
  then have cur: "current = a" by (auto split: if_splits)
  have "dijkstra_loop s a ?d ?p (u # us) = Some (?d, ?p)"
    unfolding dijkstra_loop.simps(2)[of s a ?d ?p u us] current_def[symmetric] Let_def
    by (simp add: cur)
  moreover have "reconstruct ?p (Some a) [] = Some [a]"
    by (simp add: reconstruct.simps)
  ultimately show ?thesis
    by (simp add: dijkstra_shortest_path_def o)
qed

theorem dijkstra_same_node_witness:
  "(3::nat) \<in> set (nodes example_network)
   \<and> dijkstra_shortest_path example_network [4, 2, 0, 1, 3] 3 3 = Some (Some [3], Finite 0)"
proof -
  have n: "(3::nat) \<in> set (nodes example_network)"
    "set [4, 2, 0, 1, 3] = set (nodes example_network)"
    by (auto simp: example_network_def)
  from dijkstra_same_node[OF n] n(1) show ?thesis by simp
qed

section \<open>Properties of the flow simulator\<close>

subsection \<open>Congestion stays in its range\<close>

lemma raise_congestion_range:
  "0 \<le> amount \<Longrightarrow> congestion_in_range s \<Longrightarrow> congestion_in_range (raise_congestion amount node s)"
  by (auto simp: congestion_in_range_def raise_congestion_def min_def intro: add_nonneg_nonneg)

lemma lower_congestion_range:
  "0 \<le> amount \<Longrightarrow> congestion_in_range s \<Longrightarrow> congestion_in_range (lower_congestion amount node s)"
proof -
  assume a: "0 \<le> amount" and r: "congestion_in_range s"
  from r have "congestion s node \<le> 10" by (simp add: congestion_in_range_def)
  with a have "congestion s node - amount \<le> 10" by linarith
  with r show ?thesis
    by (auto simp: congestion_in_range_def lower_congestion_def max_def)
qed

lemma fold_raise_congestion_range:
  "0 \<le> amount \<Longrightarrow> congestion_in_range s \<Longrightarrow> congestion_in_range (fold (raise_congestion amount) path s)"
  by (induction path arbitrary: s) (simp_all add: raise_congestion_range)

lemma fold_lower_congestion_range:
  "0 \<le> amount \<Longrightarrow> congestion_in_range s \<Longrightarrow> congestion_in_range (fold (lower_congestion amount) path s)"
  by (induction path arbitrary: s) (simp_all add: lower_congestion_range)

lemma timeout_node_range:
  "congestion_in_range s \<Longrightarrow> congestion_in_range (timeout_node t node s)"
  by (auto simp: congestion_in_range_def timeout_node_def min_def split: option.splits)

lemma check_timeouts_range:
  "congestion_in_range s \<Longrightarrow> congestion_in_range (check_timeouts s t)"
proof -
  have "\<And>s. congestion_in_range s \<Longrightarrow> congestion_in_range (fold (timeout_node t) ns s)" for ns
    by (induction ns) (simp_all add: timeout_node_range)
  then show "congestion_in_range s \<Longrightarrow> congestion_in_range (check_timeouts s t)"
    by (simp add: check_timeouts_def)
qed

lemma decay_node_range:
  "congestion_in_range s \<Longrightarrow> congestion_in_range (decay_node node s)"
  by (simp add: decay_node_def Let_def lower_congestion_range)

lemma decay_congestion_range:
  "congestion_in_range s \<Longrightarrow> congestion_in_range (decay_congestion s)"
proof -
  have "\<And>s. congestion_in_range s \<Longrightarrow> congestion_in_range (fold decay_node ns s)" for ns
    by (induction ns) (simp_all add: decay_node_range)
  then show "congestion_in_range s \<Longrightarrow> congestion_in_range (decay_congestion s)"
    by (simp add: decay_congestion_def)
qed

lemma handle_packet_ack_range:
  "congestion_in_range s \<Longrightarrow> handle_packet_ack s src path now = Inr s' \<Longrightarrow> congestion_in_range s'"
proof -
  assume r: "congestion_in_range s" and h: "handle_packet_ack s src path now = Inr s'"
  show ?thesis
  proof (cases "tcp_control s src")
    case None
    with h r show ?thesis by (simp add: handle_packet_ack_def)
  next
    case (Some c)
    with h obtain c' where c': "on_ack_received c = Inr c'"
      by (cases "on_ack_received c") (auto simp: handle_packet_ack_def)
    let ?s3 = "s\<lparr>tcp_control := (tcp_control s)(src := Some c'),
                  packets_in_flight := (packets_in_flight s)(src := max 0 (packets_in_flight s src - 1)),
                  last_ack_time := (last_ack_time s)(src := now)\<rparr>"
    from r have "congestion_in_range ?s3" by (simp add: congestion_in_range_def)
    then have "congestion_in_range (fold (lower_congestion 0.2) path ?s3)"
      by (intro fold_lower_congestion_range) simp_all
    moreover from h Some c' have "s' = fold (lower_congestion 0.2) path ?s3"
      by (simp add: handle_packet_ack_def Let_def)
    ultimately show ?thesis by simp
  qed
qed

lemma sample_loss_congestion: "congestion (fst (sample_loss s rnd i path)) = congestion s"
  by (induction path arbitrary: s i) (simp_all add: Let_def)

lemma track_performance_congestion:
  "track_performance s lat n now now' = Inr s' \<Longrightarrow> congestion s' = congestion s"
  by (auto simp: track_performance_def Let_def split: if_splits)

lemma packet_lost_range:
  "congestion_in_range s \<Longrightarrow> congestion_in_range (packet_lost s src c path)"
proof -
  assume r: "congestion_in_range s"
  let ?c' = "on_duplicate_ack c"
  let ?f = "(if state ?c' = slow_start then 0.5 else if state ?c' = fast_recovery then 1.5 else 1.0) * (0.5::real)"
  have "0 \<le> ?f" by simp
  moreover from r have "congestion_in_range (s\<lparr>tcp_control := (tcp_control s)(src := Some ?c')\<rparr>)"
    by (simp add: congestion_in_range_def)
  ultimately have "congestion_in_range (fold (raise_congestion ?f) path
      (s\<lparr>tcp_control := (tcp_control s)(src := Some ?c')\<rparr>))"
    by (rule fold_raise_congestion_range)
  then show ?thesis by (simp add: packet_lost_def Let_def)
qed

lemma congestion_in_range_frame:
  "congestion s' = congestion s \<Longrightarrow> congestion_in_range s \<Longrightarrow> congestion_in_range s'"
  by (simp add: congestion_in_range_def)

lemma packet_sent_range:
  assumes r: "congestion_in_range s" and h: "packet_sent s e src dst c path lat = Inr s'"
  shows "congestion_in_range s'"
proof -
  from h obtain delay where t: "lat = Finite delay"
    by (cases lat) (auto simp: packet_sent_def Let_def)
  have nonneg: "0 \<le> 1 / real_of_int (max 1 (get_window_size c'))" for c'
    by simp
  from h r show ?thesis
    unfolding packet_sent_def Let_def t
    apply (cases "traffic_load s"; clarsimp)
      apply (rule fold_raise_congestion_range, simp, erule congestion_in_range_frame[rotated], simp)+
    done
qed

lemma send_attempt_range:
  assumes r: "congestion_in_range s" and h: "send_attempt s e src dst c path lat = Inr s'"
  shows "congestion_in_range s'"
proof -
  define sl where "sl = sample_loss s (env_random e) 0 path"
  have "congestion (fst sl) = congestion s" by (simp add: sl_def sample_loss_congestion)
  with r have r1: "congestion_in_range (fst sl)" by (simp add: congestion_in_range_def)
  from h obtain s1 where
    s1: "(if snd sl then Inr (packet_lost (fst sl) src c path)
          else packet_sent (fst sl) e src dst c path lat) = Inr s1"
    and tp: "track_performance s1 lat (int (length path)) (env_time_track e) (env_time_entry e) = Inr s'"
    by (auto simp: send_attempt_def sl_def[symmetric] Let_def split: sum.splits)
  have "congestion_in_range s1"
  proof (cases "snd sl")
    case True
    with s1 r1 show ?thesis by (auto simp: packet_lost_range)
  next
    case False
    with s1 r1 show ?thesis by (auto dest: packet_sent_range)
  qed
  with track_performance_congestion[OF tp] show ?thesis
    by (simp add: congestion_in_range_def)
qed

lemma start_packet_generation_range:
  assumes r: "congestion_in_range s" and h: "start_packet_generation s e = Some (Inr s')"
  shows "congestion_in_range s'"
proof (cases "simulation_running s \<and> length (nodes s) > 1")
  case False
  with h r show ?thesis by (auto simp: start_packet_generation_def)
next
  case True
  from h True obtain s1 where s': "s' = check_timeouts s1 (env_time_timeouts e)"
    and s1: "s1 = s \<or> (\<exists>c path lat.
        send_attempt s e (env_source e) (env_destination e) c path lat = Inr s1)"
    by (auto simp: start_packet_generation_def Let_def
        split: option.splits if_splits sum.splits prod.splits)
  from s1 r have "congestion_in_range s1"
    by (auto dest: send_attempt_range)
  then show ?thesis unfolding s' by (rule check_timeouts_range)
qed

lemma engine_step_range:
  "congestion_in_range s \<Longrightarrow> engine_step s ev = Some (Inr s') \<Longrightarrow> congestion_in_range s'"
  by (cases ev)
     (auto dest: start_packet_generation_range handle_packet_ack_range simp: decay_congestion_range)

lemma engine_run_range:
  "congestion_in_range s \<Longrightarrow> engine_run s evs = Some (Inr s') \<Longrightarrow> congestion_in_range s'"
proof (induction evs arbitrary: s)
  case Nil
  then show ?case by simp
next
  case (Cons ev evs)
  from Cons.prems(2) obtain s1 where s1: "engine_step s ev = Some (Inr s1)"
    and rest: "engine_run s1 evs = Some (Inr s')"
    by (auto split: option.splits sum.splits)
  from engine_step_range[OF Cons.prems(1) s1] have "congestion_in_range s1" .
  from Cons.IH[OF this rest] show ?case .
qed

subsection \<open>No handler raises in a well-formed state\<close>

lemma fold_invariant: "(\<And>x s. P s \<Longrightarrow> P (f x s)) \<Longrightarrow> P s \<Longrightarrow> P (fold f xs s)"
  by (induction xs arbitrary: s) simp_all

lemma fold_frame: "(\<And>x s. g (f x s) = g s) \<Longrightarrow> g (fold f xs s) = g s"
  by (induction xs arbitrary: s) simp_all

lemma keeps_transfer:
  assumes "keeps N s" and "nodes s' = nodes s" and "latency s' = latency s"
    and "connections s' = connections s"
    and "\<And>n c. tcp_control s' n = Some c \<Longrightarrow> 1 \<le> cwnd c \<and> 2 \<le> ssthresh c"
    and "total_packets (routing_stats s') = total_packets (routing_stats s)"
  shows "keeps N s'"
  using assms unfolding keeps_def engine_ok_def wf_topology_def by metis

lemma keeps_tcp: "keeps N s \<Longrightarrow> tcp_control s n = Some c \<Longrightarrow> 1 \<le> cwnd c \<and> 2 \<le> ssthresh c"
  unfolding keeps_def engine_ok_def by blast

lemma on_timeout_bounds: "1 \<le> cwnd c \<Longrightarrow> 2 \<le> ssthresh c \<Longrightarrow> 1 \<le> cwnd (on_timeout c) \<and> 2 \<le> ssthresh (on_timeout c)"
  using tcp_step_invariant[of c Timeout] by auto

lemma on_duplicate_ack_bounds:
  "1 \<le> cwnd c \<Longrightarrow> 2 \<le> ssthresh c \<Longrightarrow> 1 \<le> cwnd (on_duplicate_ack c) \<and> 2 \<le> ssthresh (on_duplicate_ack c)"
  using tcp_step_invariant[of c DuplicateAck] by auto

lemma on_ack_received_bounds:
  "1 \<le> cwnd c \<Longrightarrow> 2 \<le> ssthresh c \<Longrightarrow> \<exists>c'. on_ack_received c = Inr c' \<and> 1 \<le> cwnd c' \<and> 2 \<le> ssthresh c'"
  using tcp_step_invariant[of c AckReceived] by auto

lemma raise_congestion_keeps:
  assumes k: "keeps N s"
  shows "keeps N (raise_congestion a node s)"
  by (intro keeps_transfer[OF k]) (auto simp: raise_congestion_def dest: keeps_tcp[OF k])

lemma lower_congestion_keeps:
  assumes k: "keeps N s"
  shows "keeps N (lower_congestion a node s)"
  by (intro keeps_transfer[OF k]) (auto simp: lower_congestion_def dest: keeps_tcp[OF k])

lemma decay_node_keeps: "keeps N s \<Longrightarrow> keeps N (decay_node node s)"
  by (simp add: decay_node_def Let_def lower_congestion_keeps)

lemma decay_congestion_keeps: "keeps N s \<Longrightarrow> keeps N (decay_congestion s)"
  unfolding decay_congestion_def
  by (auto intro: fold_invariant[where P = "keeps N"] decay_node_keeps)

lemma timeout_node_keeps: "keeps N s \<Longrightarrow> keeps N (timeout_node t node s)"
proof -
  assume k: "keeps N s"
  show ?thesis
  proof (cases "tcp_control s node")
    case None
    with k show ?thesis by (simp add: timeout_node_def)
  next
    case (Some c)
    with k have "1 \<le> cwnd c" "2 \<le> ssthresh c" by (auto dest: keeps_tcp)
    from on_timeout_bounds[OF this] Some show ?thesis
      by (intro keeps_transfer[OF k])
         (auto simp: timeout_node_def dest: keeps_tcp[OF k] split: if_splits)
  qed
qed

lemma check_timeouts_keeps: "keeps N s \<Longrightarrow> keeps N (check_timeouts s t)"
  unfolding check_timeouts_def
  by (auto intro: fold_invariant[where P = "keeps N"] timeout_node_keeps)

lemma handle_packet_ack_keeps:
  assumes k: "keeps N s"
  shows "\<exists>s'. handle_packet_ack s src path now = Inr s' \<and> keeps N s'"
proof (cases "tcp_control s src")
  case None
  with k show ?thesis by (simp add: handle_packet_ack_def)
next
  case (Some c)
  with k have "1 \<le> cwnd c" "2 \<le> ssthresh c" by (auto dest: keeps_tcp)
  from on_ack_received_bounds[OF this] obtain c' where
    c': "on_ack_received c = Inr c'" "1 \<le> cwnd c'" "2 \<le> ssthresh c'" by blast
  let ?s3 = "s\<lparr>tcp_control := (tcp_control s)(src := Some c'),
                packets_in_flight := (packets_in_flight s)(src := max 0 (packets_in_flight s src - 1)),
                last_ack_time := (last_ack_time s)(src := now)\<rparr>"
  from c'(2,3) have "keeps N ?s3"
    by (intro keeps_transfer[OF k]) (auto dest: keeps_tcp[OF k] split: if_splits)
  then have "keeps N (fold (lower_congestion 0.2) path ?s3)"
    by (auto intro: fold_invariant[where P = "keeps N"] lower_congestion_keeps)
  moreover have "handle_packet_ack s src path now = Inr (fold (lower_congestion 0.2) path ?s3)"
    by (simp add: handle_packet_ack_def Some c'(1) Let_def)
  ultimately show ?thesis by simp
qed

lemma sample_loss_keeps: "keeps N s \<Longrightarrow> keeps N (fst (sample_loss s rnd i path))"
proof (induction path arbitrary: s i)
  case Nil
  then show ?case by simp
next
  case (Cons node rest)
  let ?s1 = "s\<lparr>packet_loss_probability :=
                  (packet_loss_probability s)(node := min 0.3 (congestion s node * 0.03))\<rparr>"
  have "keeps N ?s1"
    by (intro keeps_transfer[OF Cons.prems]) (auto dest: keeps_tcp[OF Cons.prems])
  from Cons.IH[OF this] this show ?case
    by (simp add: Let_def)
qed

lemma sample_loss_tcp_control: "tcp_control (fst (sample_loss s rnd i path)) = tcp_control s"
  by (induction path arbitrary: s i) (simp_all add: Let_def)

lemma packet_lost_keeps:
  assumes k: "keeps N s" and c: "1 \<le> cwnd c" "2 \<le> ssthresh c"
  shows "keeps N (packet_lost s src c path)"
proof -
  let ?s1 = "s\<lparr>tcp_control := (tcp_control s)(src := Some (on_duplicate_ack c))\<rparr>"
  from on_duplicate_ack_bounds[OF c] have "keeps N ?s1"
    by (intro keeps_transfer[OF k]) (auto dest: keeps_tcp[OF k] split: if_splits)
  then have "keeps N (fold (raise_congestion a) path ?s1)" for a
    by (auto intro: fold_invariant[where P = "keeps N"] raise_congestion_keeps)
  then show ?thesis by (simp add: packet_lost_def Let_def)
qed

lemma packet_sent_keeps:
  assumes k: "keeps N s" and c: "1 \<le> cwnd c" "2 \<le> ssthresh c"
  shows "\<exists>s'. packet_sent s e src dst c path (Finite delay) = Inr s' \<and> keeps N s'
     \<and> length (packets s') = length (packets s) + 1"
proof -
  define s3 where "s3 = s\<lparr>packets := packets s @ [\<lparr>pkt_source = src, pkt_destination = dst, pkt_path = path,
                 pkt_current_index = 0, pkt_progress = 0,
                 pkt_hop_count = int (length path) - 1, pkt_total_latency = Finite delay,
                 pkt_timestamp = env_time_packet e, pkt_completed = False,
                 pkt_cwnd = get_window_size c, pkt_algorithm = algorithm c\<rparr>],
       packets_in_flight := (packets_in_flight s)(src := packets_in_flight s src + 1),
       tcp_control := (tcp_control s)(src := Some (c\<lparr>packets_sent := packets_sent c + 1\<rparr>)),
       scheduled_acks := scheduled_acks s @ [(delay, src, path)]\<rparr>"
  from c have k4: "keeps N s3"
    by (intro keeps_transfer[OF k]) (auto simp: s3_def dest: keeps_tcp[OF k] split: if_splits)
  have l4: "length (packets s3) = length (packets s) + 1" by (simp add: s3_def)
  have fr: "keeps N (fold (raise_congestion a) path s3)
      \<and> length (packets (fold (raise_congestion a) path s3)) = length (packets s) + 1" for a
    using k4 l4
    by (auto intro: fold_invariant[where P = "keeps N"] raise_congestion_keeps
        simp: fold_frame[where g = packets] raise_congestion_def)
  have "\<exists>a. packet_sent s e src dst c path (Finite delay) = Inr (fold (raise_congestion a) path s3)"
    unfolding packet_sent_def Let_def dist.case s3_def
    by (cases "traffic_load s") (simp_all, blast+)
  with fr show ?thesis by auto
qed

subsection \<open>Performance records\<close>

lemma packet_sent_shape:
  "\<exists>a. packet_sent s e src dst c path (Finite delay)
      = Inr (fold (raise_congestion a) path (sent_state s e src dst c path delay))"
  unfolding packet_sent_def Let_def dist.case sent_state_def
  by (cases "traffic_load s") (simp_all, blast+)

lemma raise_congestion_perf [simp]: "perf_data (raise_congestion a node s) = perf_data s"
  by (simp add: perf_data_def raise_congestion_def)

lemma raise_congestion_packets [simp]: "packets (raise_congestion a node s) = packets s"
  by (simp add: raise_congestion_def)

lemma fold_raise_congestion_perf [simp]:
  "perf_data (fold (raise_congestion a) path s) = perf_data s"
  by (rule fold_frame) simp

lemma fold_raise_congestion_packets [simp]:
  "packets (fold (raise_congestion a) path s) = packets s"
  by (rule fold_frame) simp

lemma timeout_node_perf [simp]: "perf_data (timeout_node t node s) = perf_data s"
  by (simp add: perf_data_def timeout_node_def split: option.splits)

lemma timeout_node_packets [simp]: "packets (timeout_node t node s) = packets s"
  by (simp add: timeout_node_def split: option.splits)

lemma check_timeouts_perf [simp]: "perf_data (check_timeouts s t) = perf_data s"
  unfolding check_timeouts_def by (rule fold_frame) simp

lemma check_timeouts_packets [simp]: "packets (check_timeouts s t) = packets s"
  unfolding check_timeouts_def by (rule fold_frame) simp

lemma sample_loss_perf [simp]: "perf_data (fst (sample_loss s rnd i path)) = perf_data s"
  by (induction path arbitrary: s i) (simp_all add: Let_def perf_data_def)

lemma sample_loss_packets [simp]: "packets (fst (sample_loss s rnd i path)) = packets s"
  by (induction path arbitrary: s i) (simp_all add: Let_def)

lemma packet_lost_perf [simp]: "perf_data (packet_lost s src c path) = perf_data s"
  by (simp add: packet_lost_def Let_def) (simp add: perf_data_def)

lemma packet_lost_packets [simp]: "packets (packet_lost s src c path) = packets s"
  by (simp add: packet_lost_def Let_def)

lemma sent_state_perf [simp]: "perf_data (sent_state s e src dst c path delay) = perf_data s"
  by (simp add: perf_data_def sent_state_def)

lemma sent_state_packets: "length (packets (sent_state s e src dst c path delay)) = length (packets s) + 1"
  by (simp add: sent_state_def)

lemma recorded_cong:
  "perf_data a = perf_data b \<Longrightarrow> perf_data a' = perf_data b' \<Longrightarrow>
   recorded a lat n t a' = recorded b lat n t b'"
  by (simp add: perf_data_def recorded_def)

lemma track_performance_effect:
  assumes "0 \<le> total_packets (routing_stats s)"
  shows "\<exists>s'. track_performance s lat n now now' = Inr s' \<and> recorded s lat n now' s'
     \<and> packets s' = packets s"
  using assms
  by (simp add: track_performance_def Let_def recorded_def)

lemma track_performance_keeps:
  assumes k: "keeps N s" and t: "track_performance s lat n now now' = Inr s'"
  shows "keeps N s'"
proof -
  from k have tp: "0 \<le> total_packets (routing_stats s)" by (simp add: keeps_def engine_ok_def)
  from track_performance_effect[OF tp, of lat n now now'] t
  have "total_packets (routing_stats s') = total_packets (routing_stats s) + 1"
    by (auto simp: recorded_def)
  with tp have tp': "0 \<le> total_packets (routing_stats s')" by simp
  have fr: "nodes s' = nodes s \<and> latency s' = latency s \<and> connections s' = connections s
      \<and> tcp_control s' = tcp_control s"
    using t by (auto simp: track_performance_def Let_def split: if_splits)
  with k tp' show ?thesis
    unfolding keeps_def engine_ok_def wf_topology_def by metis
qed

lemma packet_sent_keeps2:
  assumes k: "keeps N s" and c: "1 \<le> cwnd c" "2 \<le> ssthresh c"
    and h: "packet_sent s e src dst c path (Finite delay) = Inr s'"
  shows "keeps N s'"
  using packet_sent_keeps[OF k c, of e src dst path delay] h by auto

lemma send_attempt_effect:
  assumes tp: "0 \<le> total_packets (routing_stats s)"
  shows "\<exists>s1. send_attempt s e src dst c path (Finite k) = Inr s1
     \<and> recorded s (Finite k) (int (length path)) (env_time_entry e) s1
     \<and> (if snd (sample_loss s (env_random e) 0 path) then packets s1 = packets s
         else length (packets s1) = length (packets s) + 1)"
proof -
  define sl where "sl = sample_loss s (env_random e) 0 path"
  have sl_perf: "perf_data (fst sl) = perf_data s" and sl_packets: "packets (fst sl) = packets s"
    by (simp_all add: sl_def)
  obtain sb where sb: "(if snd sl then Inr (packet_lost (fst sl) src c path)
          else packet_sent (fst sl) e src dst c path (Finite k)) = Inr sb"
    and sb_perf: "perf_data sb = perf_data s"
    and sb_packets: "if snd sl then packets sb = packets s
         else length (packets sb) = length (packets s) + 1"
  proof (cases "snd sl")
    case True
    show ?thesis
      by (rule that[of "packet_lost (fst sl) src c path"]) (simp_all add: True sl_perf sl_packets)
  next
    case False
    from packet_sent_shape[of "fst sl" e src dst c path k] obtain a where
      a: "packet_sent (fst sl) e src dst c path (Finite k)
        = Inr (fold (raise_congestion a) path (sent_state (fst sl) e src dst c path k))"
      by blast
    show ?thesis
      by (rule that[of "fold (raise_congestion a) path (sent_state (fst sl) e src dst c path k)"])
         (simp_all add: False a sl_perf sl_packets sent_state_packets)
  qed
  from sb_perf tp have "0 \<le> total_packets (routing_stats sb)"
    by (simp add: perf_data_def)
  from track_performance_effect[OF this, of "Finite k" "int (length path)" "env_time_track e" "env_time_entry e"]
  obtain s1 where s1: "track_performance sb (Finite k) (int (length path))
        (env_time_track e) (env_time_entry e) = Inr s1"
    and rec: "recorded sb (Finite k) (int (length path)) (env_time_entry e) s1"
    and pk: "packets s1 = packets sb"
    by blast
  from rec recorded_cong[OF sb_perf refl, of "Finite k" "int (length path)" "env_time_entry e" s1]
  have "recorded s (Finite k) (int (length path)) (env_time_entry e) s1" by simp
  moreover have "send_attempt s e src dst c path (Finite k) = Inr s1"
    using sb s1 by (simp add: send_attempt_def sl_def[symmetric] Let_def)
  ultimately show ?thesis
    using sb_packets pk by (auto simp: sl_def)
qed

lemma send_attempt_keeps:
  assumes k: "keeps N s" and c: "1 \<le> cwnd c" "2 \<le> ssthresh c"
    and h: "send_attempt s e src dst c path (Finite d) = Inr s1"
  shows "keeps N s1"
proof -
  define sl where "sl = sample_loss s (env_random e) 0 path"
  have k1: "keeps N (fst sl)" unfolding sl_def by (rule sample_loss_keeps[OF k])
  from h obtain sb where
    sb: "(if snd sl then Inr (packet_lost (fst sl) src c path)
          else packet_sent (fst sl) e src dst c path (Finite d)) = Inr sb"
    and tp: "track_performance sb (Finite d) (int (length path)) (env_time_track e) (env_time_entry e) = Inr s1"
    by (auto simp: send_attempt_def sl_def[symmetric] Let_def split: sum.splits)
  have "keeps N sb"
  proof (cases "snd sl")
    case True
    with sb packet_lost_keeps[OF k1 c] show ?thesis by auto
  next
    case False
    with sb packet_sent_keeps2[OF k1 c] show ?thesis by auto
  qed
  from track_performance_keeps[OF this tp] show ?thesis .
qed

text \<open>What the handler does when the window check passes and the router finds a path.\<close>

lemma start_packet_generation_attempt:
  assumes run: "simulation_running s" "1 < length (nodes s)"
    and tcp: "tcp_control s (env_source e) = Some c"
    and win: "packets_in_flight s (env_source e) < get_window_size c"
    and dij: "dijkstra_shortest_path s (env_order e) (env_source e) (env_destination e)
        = Some (Some path, lat)"
    and ne: "path \<noteq> []"
    and att: "send_attempt s e (env_source e) (env_destination e) c path lat = Inr s1"
  shows "start_packet_generation s e = Some (Inr (check_timeouts s1 (env_time_timeouts e)))"
  using assms by (simp add: start_packet_generation_def Let_def)

lemma start_packet_generation_idle:
  "\<not> (simulation_running s \<and> 1 < length (nodes s)) \<Longrightarrow> start_packet_generation s e = Some (Inr s)"
  unfolding start_packet_generation_def by (rule if_not_P)

lemma start_packet_generation_no_control:
  "simulation_running s \<Longrightarrow> 1 < length (nodes s) \<Longrightarrow> tcp_control s (env_source e) = None \<Longrightarrow>
   start_packet_generation s e = Some (Inr (check_timeouts s (env_time_timeouts e)))"
  by (simp add: start_packet_generation_def Let_def)

lemma start_packet_generation_window_full:
  "simulation_running s \<Longrightarrow> 1 < length (nodes s) \<Longrightarrow> tcp_control s (env_source e) = Some c \<Longrightarrow>
   \<not> packets_in_flight s (env_source e) < get_window_size c \<Longrightarrow>
   start_packet_generation s e = Some (Inr (check_timeouts s (env_time_timeouts e)))"
  by (simp add: start_packet_generation_def Let_def)

lemma start_packet_generation_no_path:
  "simulation_running s \<Longrightarrow> 1 < length (nodes s) \<Longrightarrow> tcp_control s (env_source e) = Some c \<Longrightarrow>
   packets_in_flight s (env_source e) < get_window_size c \<Longrightarrow>
   dijkstra_shortest_path s (env_order e) (env_source e) (env_destination e) = Some (None, lat) \<Longrightarrow>
   start_packet_generation s e = Some (Inr (check_timeouts s (env_time_timeouts e)))"
  by (simp add: start_packet_generation_def Let_def)

lemma start_packet_generation_total:
  assumes k: "keeps N s" and ok: "event_ok s (Generate e)"
  shows "\<exists>s'. start_packet_generation s e = Some (Inr s') \<and> keeps N s'"
proof (cases "simulation_running s \<and> 1 < length (nodes s)")
  case False
  with k start_packet_generation_idle[OF False, of e] show ?thesis by simp
next
  case True
  let ?src = "env_source e" and ?dst = "env_destination e"
  from k have wf: "wf_topology s" and tp: "0 \<le> total_packets (routing_stats s)"
    by (simp_all add: keeps_def engine_ok_def)
  from ok have src: "?src \<in> set (nodes s)" and dst: "?dst \<in> set (nodes s)"
    and ord: "set (env_order e) = set (nodes s)" by simp_all
  have skip: "keeps N (check_timeouts s (env_time_timeouts e))"
    by (rule check_timeouts_keeps[OF k])
  show ?thesis
  proof (cases "tcp_control s ?src")
    case None
    with True skip start_packet_generation_no_control[of s e] show ?thesis by simp
  next
    case (Some c)
    show ?thesis
    proof (cases "packets_in_flight s ?src < get_window_size c")
      case False
      with True Some skip start_packet_generation_window_full[of s e c] show ?thesis by simp
    next
      case win: True
      from dijkstra_shortest_path_correct[OF wf src dst ord]
      consider "dijkstra_shortest_path s (env_order e) ?src ?dst = Some (None, Infinity)"
        | path where "dijkstra_shortest_path s (env_order e) ?src ?dst
            = Some (Some path, Finite (path_cost s path))" "path_from_to s ?src ?dst path"
        by blast
      then show ?thesis
      proof cases
        case 1
        with True Some win skip start_packet_generation_no_path[of s e c Infinity] show ?thesis
          by simp
      next
        case 2
        from 2(2) have ne: "path \<noteq> []" by (auto simp: path_from_to_def)
        from send_attempt_effect[OF tp, of e ?src ?dst c path "path_cost s path"]
        obtain s1 where s1: "send_attempt s e ?src ?dst c path (Finite (path_cost s path)) = Inr s1"
          by blast
        from keeps_tcp[OF k Some] have cb: "1 \<le> cwnd c" "2 \<le> ssthresh c" by simp_all
        have "keeps N s1" by (rule send_attempt_keeps[OF k cb s1])
        then have "keeps N (check_timeouts s1 (env_time_timeouts e))"
          by (rule check_timeouts_keeps)
        with start_packet_generation_attempt[OF _ _ Some win 2(1) ne s1] True
        show ?thesis by simp
      qed
    qed
  qed
qed

lemma event_ok_nodes: "nodes s' = nodes s \<Longrightarrow> event_ok s' ev = event_ok s ev"
  by (cases ev) simp_all

lemma engine_step_total:
  assumes k: "keeps N s" and ok: "event_ok s ev"
  shows "\<exists>s'. engine_step s ev = Some (Inr s') \<and> keeps N s'"
proof (cases ev)
  case (Generate e)
  with start_packet_generation_total[OF k] ok show ?thesis by simp
next
  case (Ack src path now)
  with handle_packet_ack_keeps[OF k, of src path now] show ?thesis by simp
next
  case Decay
  with decay_congestion_keeps[OF k] show ?thesis by simp
qed

lemma engine_run_total:
  "keeps N s \<Longrightarrow> \<forall>ev \<in> set evs. event_ok s ev \<Longrightarrow>
   \<exists>s'. engine_run s evs = Some (Inr s') \<and> keeps N s'"
proof (induction evs arbitrary: s)
  case Nil
  then show ?case by simp
next
  case (Cons ev evs)
  from Cons.prems(2) have "event_ok s ev" by simp
  from engine_step_total[OF Cons.prems(1) this] obtain s1 where
    s1: "engine_step s ev = Some (Inr s1)" and k1: "keeps N s1" by blast
  from Cons.prems(1) k1 have "nodes s1 = nodes s" by (simp add: keeps_def)
  from event_ok_nodes[OF this] Cons.prems(2) have "\<forall>ev \<in> set evs. event_ok s1 ev"
    by simp
  from Cons.IH[OF k1 this] s1 show ?case by simp
qed

subsection \<open>The engine over sequences of events\<close>

lemma example_engine_ok: "engine_ok example_network"
  by (simp add: engine_ok_def example_wf) (simp add: example_network_def tcp_init_def)

text \<open>
  C7. Starting from congestion = 0 on every node, after every sequence of engine events
  that runs to its end (Generate ticks with their loss or success branch and their timeout
  check, ACKs and decay ticks, with any arguments) every node's congestion is in [0, 10];
  and from a well-formed state every sequence of well-formed events does run to its end.
\<close>

theorem congestion_stays_in_range:
  assumes "\<forall>n. congestion s n = 0"
  shows "(\<forall>s'. engine_run s evs = Some (Inr s') \<longrightarrow>
            (\<forall>n. 0 \<le> congestion s' n \<and> congestion s' n \<le> 10))
       \<and> (engine_ok s \<and> (\<forall>ev \<in> set evs. event_ok s ev) \<longrightarrow>
            (\<exists>s'. engine_run s evs = Some (Inr s')))"
proof -
  from assms have r: "congestion_in_range s" by (simp add: congestion_in_range_def)
  have "\<exists>s'. engine_run s evs = Some (Inr s')"
    if "engine_ok s" and "\<forall>ev \<in> set evs. event_ok s ev"
    using engine_run_total[of "nodes s" s evs] that by (auto simp: keeps_def)
  with engine_run_range[OF r] show ?thesis
    by (auto simp: congestion_in_range_def)
qed

theorem congestion_stays_in_range_witness:
  "(\<forall>n. congestion example_network n = 0) \<and> engine_ok example_network
   \<and> (\<exists>s'. engine_run example_network [Generate example_tick, Ack 0 [0, 1, 3] 2, Decay] = Some (Inr s')
          \<and> (\<forall>n. 0 \<le> congestion s' n \<and> congestion s' n \<le> 10))"
proof -
  have z: "\<forall>n. congestion example_network n = 0" by (simp add: example_network_def)
  have ok: "\<forall>ev \<in> set [Generate example_tick, Ack 0 [0, 1, 3] 2, Decay]. event_ok example_network ev"
    by (auto simp: example_tick_def example_network_def)
  from congestion_stays_in_range[OF z, of "[Generate example_tick, Ack 0 [0, 1, 3] 2, Decay]"]
    example_engine_ok ok z
  show ?thesis by blast
qed

subsection \<open>Every attempt is recorded\<close>

text \<open>
  C8. On every Generate tick where the window check of the source passes and a path to the
  destination exists, the handler returns and has recorded the attempt exactly once with
  the total latency computed by the router and the length of its path, whether loss
  sampling lost the packet (no packet is added) or not (one packet is added):
  total_packets grows by 1, and the router's total latency is the entry appended to
  latency_history and to path_history, each kept to its last 50 or 100 entries.
\<close>

theorem attempt_is_recorded_once:
  assumes "wf_topology s" and "0 \<le> total_packets (routing_stats s)"
    and "simulation_running s" and "1 < length (nodes s)"
    and "env_source e \<in> set (nodes s)" and "env_destination e \<in> set (nodes s)"
    and "set (env_order e) = set (nodes s)"
    and "tcp_control s (env_source e) = Some c"
    and "packets_in_flight s (env_source e) < get_window_size c"
    and "reachable s (env_source e) (env_destination e)"
  shows "\<exists>path k s'.
      dijkstra_shortest_path s (env_order e) (env_source e) (env_destination e)
        = Some (Some path, Finite k)
    \<and> start_packet_generation s e = Some (Inr s')
    \<and> total_packets (routing_stats s') = total_packets (routing_stats s) + 1
    \<and> latency_history s' =
          (if 50 < length (time_stamps s) + 1 then tl (latency_history s @ [Finite k])
           else latency_history s @ [Finite k])
    \<and> path_history (routing_stats s') =
          (if 100 < length (path_history (routing_stats s)) + 1
           then tl (path_history (routing_stats s) @
                  [\<lparr>hops = int (length path) - 1, entry_latency = Finite k,
                    entry_time = env_time_entry e - performance_start_time s\<rparr>])
           else path_history (routing_stats s) @
                  [\<lparr>hops = int (length path) - 1, entry_latency = Finite k,
                    entry_time = env_time_entry e - performance_start_time s\<rparr>])
    \<and> (if snd (sample_loss s (env_random e) 0 path) then packets s' = packets s
        else length (packets s') = length (packets s) + 1)"
proof -
  let ?src = "env_source e" and ?dst = "env_destination e"
  from dijkstra_shortest_path_correct[OF assms(1,5,6,7)] assms(10)
  obtain path where dij: "dijkstra_shortest_path s (env_order e) ?src ?dst
        = Some (Some path, Finite (path_cost s path))"
    and pf: "path_from_to s ?src ?dst path"
    by auto
  from pf have ne: "path \<noteq> []" by (auto simp: path_from_to_def)
  from send_attempt_effect[OF assms(2), of e ?src ?dst c path "path_cost s path"]
  obtain s1 where att: "send_attempt s e ?src ?dst c path (Finite (path_cost s path)) = Inr s1"
    and rec: "recorded s (Finite (path_cost s path)) (int (length path)) (env_time_entry e) s1"
    and pk: "if snd (sample_loss s (env_random e) 0 path) then packets s1 = packets s
         else length (packets s1) = length (packets s) + 1"
    by blast
  let ?s' = "check_timeouts s1 (env_time_timeouts e)"
  have run: "start_packet_generation s e = Some (Inr ?s')"
    by (rule start_packet_generation_attempt[OF assms(3,4,8,9) dij ne att])
  have "recorded s (Finite (path_cost s path)) (int (length path)) (env_time_entry e) ?s'"
    using rec recorded_cong[OF refl check_timeouts_perf, of s "Finite (path_cost s path)"
        "int (length path)" "env_time_entry e" s1 "env_time_timeouts e"]
    by simp
  then have "total_packets (routing_stats ?s') = total_packets (routing_stats s) + 1"
    and "latency_history ?s' =
          (if 50 < length (time_stamps s) + 1 then tl (latency_history s @ [Finite (path_cost s path)])
           else latency_history s @ [Finite (path_cost s path)])"
    and "path_history (routing_stats ?s') =
          (if 100 < length (path_history (routing_stats s)) + 1
           then tl (path_history (routing_stats s) @
                  [\<lparr>hops = int (length path) - 1, entry_latency = Finite (path_cost s path),
                    entry_time = env_time_entry e - performance_start_time s\<rparr>])
           else path_history (routing_stats s) @
                  [\<lparr>hops = int (length path) - 1, entry_latency = Finite (path_cost s path),
                    entry_time = env_time_entry e - performance_start_time s\<rparr>])"
    unfolding recorded_def by blast+
  moreover have "if snd (sample_loss s (env_random e) 0 path) then packets ?s' = packets s
        else length (packets ?s') = length (packets s) + 1"
    using pk by simp
  ultimately show ?thesis using dij run by blast
qed

lemma congested_dijkstra:
  "dijkstra_shortest_path congested_network [3, 1, 4, 0, 2] 0 3 = Some (Some [0, 1, 3], Finite 15)"
  by (simp add: dijkstra_shortest_path_def congested_network_def example_network_def
      dijkstra_loop.simps relax_def reconstruct.simps Let_def)

lemma congested_loss: "snd (sample_loss congested_network (\<lambda>i. 0) 0 [0, 1, 3])"
  by (simp add: congested_network_def example_network_def Let_def)

theorem attempt_is_recorded_once_witness:
  "wf_topology congested_network \<and> reachable congested_network 0 3
   \<and> snd (sample_loss congested_network (env_random example_tick) 0 [0, 1, 3])
   \<and> (\<exists>s'. start_packet_generation congested_network example_tick = Some (Inr s')
          \<and> total_packets (routing_stats s') = 1
          \<and> latency_history s' = [Finite 15]
          \<and> packets s' = [])"
proof -
  have wf: "wf_topology congested_network"
    by (simp add: wf_topology_def congested_network_def example_network_def)
  have "path_from_to congested_network 0 3 [0, 1, 3]"
    by (simp add: path_from_to_def linked_def congested_network_def example_network_def)
  then have re: "reachable congested_network (env_source example_tick) (env_destination example_tick)"
    unfolding reachable_iff_path by (auto simp: example_tick_def)
  have h: "0 \<le> total_packets (routing_stats congested_network)"
    "simulation_running congested_network" "1 < length (nodes congested_network)"
    "env_source example_tick \<in> set (nodes congested_network)"
    "env_destination example_tick \<in> set (nodes congested_network)"
    "set (env_order example_tick) = set (nodes congested_network)"
    "tcp_control congested_network (env_source example_tick) = Some (tcp_init Reno)"
    "packets_in_flight congested_network (env_source example_tick) < get_window_size (tcp_init Reno)"
    by (auto simp: congested_network_def example_network_def example_tick_def
        get_window_size_def py_int_def tcp_init_def)
  have loss: "snd (sample_loss congested_network (env_random example_tick) 0 [0, 1, 3])"
    using congested_loss by (simp add: example_tick_def)
  have f: "latency_history congested_network = []" "time_stamps congested_network = []"
    "packets congested_network = []" "total_packets (routing_stats congested_network) = 0"
    by (simp_all add: congested_network_def example_network_def)
  from attempt_is_recorded_once[OF wf h re] congested_dijkstra
  obtain s' where "start_packet_generation congested_network example_tick = Some (Inr s')"
    "total_packets (routing_stats s') = 1" "latency_history s' = [Finite 15]"
    "if snd (sample_loss congested_network (env_random example_tick) 0 [0, 1, 3])
       then packets s' = packets congested_network
       else length (packets s') = length (packets congested_network) + 1"
    by (auto simp: example_tick_def f)
  with loss f(3) wf re show ?thesis
    by (auto simp: example_tick_def)
qed

section \<open>Properties of the connect action\<close>

text \<open>
  C9 as stated: two connect actions for the same pair of distinct nodes produce a
  duplicate link. On the example topology in connection mode, connecting 0 and 4 twice
  leaves 4 once in the adjacency list of 0, 0 once in that of 4, and one entry for the
  pair in the list of links.
\<close>

theorem connect_twice_counterexample:
  "count_list (connections (connect (connect connecting_network 0 4) 0 4) 0) 4 = 1
   \<and> count_list (connections (connect (connect connecting_network 0 4) 0 4) 4) 0 = 1
   \<and> sim_connections (connect (connect connecting_network 0 4) 0 4)
       = [(0, 1), (0, 2), (1, 3), (2, 3), (0, 4)]
   \<and> connect (connect connecting_network 0 4) 0 4 = connect connecting_network 0 4"
  by (simp add: connect_def on_canvas_click_def connecting_network_def example_network_def Let_def)

lemma connect_result:
  assumes "connection_mode s" and "selected_node s = None" and "a \<noteq> b"
  shows "connect s a b =
     (if b \<notin> set (connections s a) then
        s\<lparr>connections := ((connections s)(a := connections s a @ [b]))
                            (b := connections s b @ [a]),
          sim_connections := sim_connections s @ [(a, b)]\<rparr>
      else s)"
  using assms
  by (simp add: connect_def on_canvas_click_def Let_def)

text \<open>
  C9, amended. In connection mode with no node selected, a second connect action for the
  same pair of distinct nodes changes nothing: the guard finds the node already in the
  adjacency list of the selected node. This holds for the second action in the same order
  and, when the pair was entered in both adjacency lists or in neither before, in the
  reverse order; a pair not linked before has exactly one link afterwards.
\<close>

theorem connect_twice_adds_one_link:
  assumes "connection_mode s" and "selected_node s = None" and "a \<noteq> b"
  shows "connect (connect s a b) a b = connect s a b
     \<and> ((b \<in> set (connections s a) \<longleftrightarrow> a \<in> set (connections s b)) \<longrightarrow>
          connect (connect s a b) b a = connect s a b)
     \<and> (b \<notin> set (connections s a) \<and> a \<notin> set (connections s b) \<longrightarrow>
          count_list (connections (connect (connect s a b) a b) a) b = 1
          \<and> count_list (connections (connect (connect s a b) a b) b) a = 1
          \<and> sim_connections (connect (connect s a b) a b) = sim_connections s @ [(a, b)])"
proof -
  let ?s1 = "connect s a b"
  have m: "connection_mode ?s1" and n: "selected_node ?s1 = None"
    and l: "b \<in> set (connections ?s1 a)"
    using assms by (simp_all add: connect_result)
  have same: "connect ?s1 a b = ?s1"
    using connect_result[OF m n assms(3)] l by simp
  have rev: "connect ?s1 b a = ?s1" if "b \<in> set (connections s a) \<longleftrightarrow> a \<in> set (connections s b)"
  proof -
    from that assms have "a \<in> set (connections ?s1 b)"
      by (simp add: connect_result)
    with connect_result[OF m n, of b] assms(3) show ?thesis by simp
  qed
  have fresh: "count_list (connections ?s1 a) b = 1 \<and> count_list (connections ?s1 b) a = 1
      \<and> sim_connections ?s1 = sim_connections s @ [(a, b)]"
    if "b \<notin> set (connections s a)" "a \<notin> set (connections s b)"
    using that assms by (simp add: connect_result count_list_0_iff)
  from same rev fresh show ?thesis by simp
qed

theorem connect_twice_adds_one_link_witness:
  "connection_mode connecting_network \<and> selected_node connecting_network = None
   \<and> connect (connect connecting_network 0 4) 0 4 = connect connecting_network 0 4
   \<and> connect (connect connecting_network 0 4) 4 0 = connect connecting_network 0 4
   \<and> count_list (connections (connect (connect connecting_network 0 4) 0 4) 0) 4 = 1"
proof -
  have h: "connection_mode connecting_network" "selected_node connecting_network = None"
    "(0::nat) \<noteq> 4"
    by (simp_all add: connecting_network_def example_network_def)
  have f: "(4::nat) \<notin> set (connections connecting_network 0)"
    "(0::nat) \<notin> set (connections connecting_network 4)"
    by (simp_all add: connecting_network_def example_network_def)
  from connect_twice_adds_one_link[OF h] f h(1,2) show ?thesis by blast
qed

end
